theory Spec2Isabelle
  imports Main
begin

section \<open>Python strings and the Unicode tables\<close>

text \<open>
  A Python \<open>str\<close> is a sequence of Unicode code points; \<open>len\<close>, indexing, slicing and
  the offsets of \<open>re\<close> matches count code points. A character is modelled by its code
  point and a string by the list of its code points. \<open>py\<close> reads an ASCII literal of
  the source (\<open>"FLOAT"\<close>, \<open>"+-*/()"\<close>) as such a string.
\<close>

type_synonym pychar = nat
type_synonym pystr = "pychar list"

definition py :: "string \<Rightarrow> pystr" where
  "py s = map of_char s"

text \<open>
  \<open>str.isalpha\<close>, \<open>str.isalnum\<close> and the classes \<open>\d\<close> and \<open>\s\<close> of \<open>re\<close> (on \<open>str\<close>
  patterns, without \<open>re.ASCII\<close>) read the Unicode character database. Its rows for the
  code points below 256 (ASCII and Latin-1) are written out; the rows above are a
  parameter \<open>U\<close> of the model, and every theorem holds for every such table.

  \<^item> \<open>isalpha\<close>: general category Lu, Ll, Lt, Lm or Lo. Below 256: A-Z, a-z, U+00AA,
    U+00B5, U+00BA, U+00C0-U+00D6, U+00D8-U+00F6, U+00F8-U+00FF.
  \<^item> \<open>isdecimal\<close> (also \<open>\d\<close>): general category Nd. Below 256: 0-9.
  \<^item> \<open>isdigit\<close>: also superscript digits. Below 256: 0-9, U+00B2, U+00B3, U+00B9.
  \<^item> \<open>isnumeric\<close>: also fractions. Below 256: the former and U+00BC-U+00BE.
  \<^item> \<open>isspace\<close> (also \<open>\s\<close>). Below 256: U+0009-U+000D, U+001C-U+0020, U+0085, U+00A0.
  \<^item> \<open>isalnum\<close> is \<open>isalpha or isdecimal or isdigit or isnumeric\<close>.
\<close>

record ucd =
  ucd_alpha :: "pychar \<Rightarrow> bool"
  ucd_decimal :: "pychar \<Rightarrow> bool"
  ucd_digit :: "pychar \<Rightarrow> bool"
  ucd_numeric :: "pychar \<Rightarrow> bool"
  ucd_space :: "pychar \<Rightarrow> bool"

definition isalpha :: "ucd \<Rightarrow> pychar \<Rightarrow> bool" where
  "isalpha U c =
     (if c < 256
      then (65 \<le> c \<and> c \<le> 90) \<or> (97 \<le> c \<and> c \<le> 122) \<or> c = 170 \<or> c = 181 \<or> c = 186
           \<or> (192 \<le> c \<and> c \<le> 214) \<or> (216 \<le> c \<and> c \<le> 246) \<or> (248 \<le> c \<and> c \<le> 255)
      else ucd_alpha U c)"

definition isdecimal :: "ucd \<Rightarrow> pychar \<Rightarrow> bool" where
  "isdecimal U c = (if c < 256 then 48 \<le> c \<and> c \<le> 57 else ucd_decimal U c)"

definition isdigit :: "ucd \<Rightarrow> pychar \<Rightarrow> bool" where
  "isdigit U c =
     (if c < 256 then (48 \<le> c \<and> c \<le> 57) \<or> c = 178 \<or> c = 179 \<or> c = 185
      else ucd_digit U c)"

definition isnumeric :: "ucd \<Rightarrow> pychar \<Rightarrow> bool" where
  "isnumeric U c =
     (if c < 256
      then (48 \<le> c \<and> c \<le> 57) \<or> c = 178 \<or> c = 179 \<or> c = 185 \<or> (188 \<le> c \<and> c \<le> 190)
      else ucd_numeric U c)"

definition isspace :: "ucd \<Rightarrow> pychar \<Rightarrow> bool" where
  "isspace U c =
     (if c < 256 then (9 \<le> c \<and> c \<le> 13) \<or> (28 \<le> c \<and> c \<le> 32) \<or> c = 133 \<or> c = 160
      else ucd_space U c)"

definition isalnum :: "ucd \<Rightarrow> pychar \<Rightarrow> bool" where
  "isalnum U c = (isalpha U c \<or> isdecimal U c \<or> isdigit U c \<or> isnumeric U c)"

section \<open>The pieces of a regular expression\<close>

text \<open>
  A pattern is modelled by a function from the text that remains at the current
  position to the length of its match there, or \<open>None\<close>. None of the patterns of the
  source looks behind the position or at an anchor, so the remaining text decides.
\<close>

type_synonym pattern = "pystr \<Rightarrow> nat option"

text \<open>The ASCII classes \<open>[A-Za-z_]\<close>, \<open>[A-Za-z0-9_]\<close> and \<open>[ \t\r\n]\<close>.\<close>

definition id_start :: "pychar \<Rightarrow> bool" where
  "id_start c = ((65 \<le> c \<and> c \<le> 90) \<or> (97 \<le> c \<and> c \<le> 122) \<or> c = 95)"

definition id_part :: "pychar \<Rightarrow> bool" where
  "id_part c = ((65 \<le> c \<and> c \<le> 90) \<or> (97 \<le> c \<and> c \<le> 122) \<or> (48 \<le> c \<and> c \<le> 57) \<or> c = 95)"

definition skip_class :: "pychar \<Rightarrow> bool" where
  "skip_class c = (c = 32 \<or> c = 9 \<or> c = 13 \<or> c = 10)"

text \<open>The length of the longest run of characters of a class at the position.\<close>

definition run :: "(pychar \<Rightarrow> bool) \<Rightarrow> pystr \<Rightarrow> nat" where
  "run P s = length (takeWhile P s)"

text \<open>
  A greedy repetition followed by more pattern: the engine first takes the whole run
  and, when what follows fails, gives back one character at a time, down to \<open>lo\<close>
  repetitions. \<open>cont k\<close> is what follows, tried after \<open>k\<close> repetitions.
\<close>

fun backtrack :: "nat \<Rightarrow> nat \<Rightarrow> (nat \<Rightarrow> 'a option) \<Rightarrow> 'a option" where
  "backtrack lo k cont =
     (if k < lo then None
      else case cont k of
             Some r \<Rightarrow> Some r
           | None \<Rightarrow> (case k of 0 \<Rightarrow> None | Suc j \<Rightarrow> backtrack lo j cont))"

text \<open>A literal such as \<open>==\<close> or \<open>\(\<close>.\<close>

definition lit :: "pystr \<Rightarrow> pattern" where
  "lit w s = (if take (length w) s = w then Some (length w) else None)"

text \<open>\<open>p1|p2|...\<close> with nothing after it: the first alternative that matches.\<close>

fun alt :: "pattern list \<Rightarrow> pattern" where
  "alt [] s = None"
| "alt (p # ps) s = (case p s of Some k \<Rightarrow> Some k | None \<Rightarrow> alt ps s)"

text \<open>
  \<open>\d+\.\d+\<close>: the first \<open>\d+\<close> backtracks over the dot; the second one ends the
  pattern and takes its whole run.
\<close>

definition re_float :: "ucd \<Rightarrow> pattern" where
  "re_float U s =
     backtrack 1 (run (isdecimal U) s)
       (\<lambda>k. case drop k s of
               [] \<Rightarrow> None
             | c # r \<Rightarrow>
                 if c = of_char CHR ''.'' \<and> 1 \<le> run (isdecimal U) r
                 then Some (k + 1 + run (isdecimal U) r) else None)"

text \<open>\<open>\d+\<close>.\<close>

definition re_int :: "ucd \<Rightarrow> pattern" where
  "re_int U s = (let k = run (isdecimal U) s in if 1 \<le> k then Some k else None)"

text \<open>\<open>[A-Za-z_][A-Za-z0-9_]*\<close>.\<close>

definition re_id :: pattern where
  "re_id s =
     (case s of
        [] \<Rightarrow> None
      | c # r \<Rightarrow> if id_start c then Some (1 + run id_part r) else None)"

text \<open>\<open>[ \t\r\n]+\<close>.\<close>

definition re_skip :: pattern where
  "re_skip s = (let k = run skip_class s in if 1 \<le> k then Some k else None)"

text \<open>\<open>.\<close> without \<open>re.DOTALL\<close>: any character but the newline.\<close>

definition re_dot :: pattern where
  "re_dot s = (case s of [] \<Rightarrow> None | c # r \<Rightarrow> if c \<noteq> 10 then Some 1 else None)"

section \<open>The tokenizer\<close>

text \<open>\<open>TOKEN_SPEC\<close>: the names and the patterns, in the order of the source.\<close>

definition TOKEN_SPEC :: "ucd \<Rightarrow> (pystr \<times> pattern) list" where
  "TOKEN_SPEC U =
     [(py ''FLOAT'', re_float U),
      (py ''INT'', re_int U),
      (py ''ID'', re_id),
      (py ''OP'', alt (map lit [py ''=='', py ''!='', py ''<='', py ''>='',
                                py ''+'', py ''-'', py ''*'', py ''/'', py ''=''])),
      (py ''LPAREN'', lit (py ''('')),
      (py ''RPAREN'', lit (py '')'')),
      (py ''SEMI'', lit (py '';'')),
      (py ''COMMA'', lit (py '','')),
      (py ''SKIP'', re_skip),
      (py ''UNKNOWN'', re_dot)]"

text \<open>
  The alternation of named groups \<open>(?P<n>p)|...\<close>: the first group that matches gives
  \<open>lastgroup\<close> and the length of the match.
\<close>

fun named_alt :: "(pystr \<times> pattern) list \<Rightarrow> pystr \<Rightarrow> (pystr \<times> nat) option" where
  "named_alt [] s = None"
| "named_alt ((n, p) # rules) s =
     (case p s of Some k \<Rightarrow> Some (n, k) | None \<Rightarrow> named_alt rules s)"

definition MASTER :: "ucd \<Rightarrow> pystr \<Rightarrow> (pystr \<times> nat) option" where
  "MASTER U = named_alt (TOKEN_SPEC U)"

text \<open>
  \<open>pattern.finditer(src)\<close>, from the position \<open>pos\<close> where \<open>s\<close> remains: the matches
  from left to right, each as (groups, \<open>group()\<close>, \<open>start()\<close>). Where the pattern does
  not match, the search moves one character on; after a match it goes on where the
  match ended. The patterns of the source match no empty text (shown below), so at the
  end of the text there is no match; a pattern that did match the empty text would be
  moved on by one character.
\<close>

function finditer :: "(pystr \<Rightarrow> ('g \<times> nat) option) \<Rightarrow> nat \<Rightarrow> pystr \<Rightarrow> ('g \<times> pystr \<times> nat) list" where
  "finditer m pos s =
     (if s = [] then []
      else case m s of
             None \<Rightarrow> finditer m (pos + 1) (drop 1 s)
           | Some (g, n) \<Rightarrow>
               (g, take n s, pos) # finditer m (pos + max 1 n) (drop (max 1 n) s))"
  by pat_completeness auto
termination
  by (relation "measure (\<lambda>(m, pos, s). length s)") auto

type_synonym token = "pystr \<times> pystr \<times> nat"

definition KEYWORDS :: "pystr set" where
  "KEYWORDS = {py ''if'', py ''else'', py ''while'', py ''return'', py ''int'',
               py ''float'', py ''for'', py ''break'', py ''continue''}"

text \<open>The body of the \<open>for\<close> loop of \<open>tokenize\<close>, over the matches that remain.\<close>

fun tokenize_loop :: "(pystr \<times> pystr \<times> nat) list \<Rightarrow> token list \<Rightarrow> token list" where
  "tokenize_loop [] tokens = tokens"
| "tokenize_loop ((lastgroup, val, pos) # ms) tokens =
     (if lastgroup = py ''SKIP'' then tokenize_loop ms tokens
      else
        let kind = (if lastgroup = py ''ID'' \<and> val \<in> KEYWORDS then py ''KEYWORD''
                    else lastgroup)
        in if kind = py ''UNKNOWN''
           then tokenize_loop ms (tokens @ [(py ''ERROR'', val, pos)])
           else tokenize_loop ms (tokens @ [(kind, val, pos)]))"

definition tokenize :: "ucd \<Rightarrow> pystr \<Rightarrow> token list" where
  "tokenize U src = tokenize_loop (finditer (MASTER U) 0 src) []"

section \<open>The automaton for identifiers\<close>

text \<open>The loop \<open>for ch in s[1:]\<close> of \<open>afd_identificador\<close>.\<close>

fun afd_loop :: "ucd \<Rightarrow> pystr \<Rightarrow> bool" where
  "afd_loop U [] = True"
| "afd_loop U (ch # rest) =
     (if \<not> (isalnum U ch \<or> ch = of_char CHR ''_'') then False else afd_loop U rest)"

definition afd_identificador :: "ucd \<Rightarrow> pystr \<Rightarrow> bool" where
  "afd_identificador U s =
     (if length s = 0 then False
      else let first = s ! 0
           in if \<not> (isalpha U first \<or> first = of_char CHR ''_'') then False
              else afd_loop U (drop 1 s))"


section \<open>The lexer of the expression parser\<close>

type_synonym tok = "pystr \<times> pystr"

datatype message =
    ClosingParenExpected
  | UnexpectedTokenInF tok
  | ExtraInputAfterExpression

datatype error = SyntaxError message | TypeError

text \<open>
  \<open>m.groups()\<close> of a match of \<open>TOKEN_RE\<close>: the texts of the groups \<open>num\<close>, \<open>ident\<close>
  and \<open>other\<close>, \<open>None\<close> for a group that took no part in the match.
\<close>

type_synonym groups = "pystr option \<times> pystr option \<times> pystr option"

text \<open>\<open>(?:(\d+\.\d+|\d+)|([A-Za-z_][A-Za-z0-9_]*)|(.))\<close> at the position.\<close>

definition token_alt :: "ucd \<Rightarrow> pystr \<Rightarrow> (groups \<times> nat) option" where
  "token_alt U s =
     (case alt [re_float U, re_int U] s of
        Some n \<Rightarrow> Some ((Some (take n s), None, None), n)
      | None \<Rightarrow>
          (case re_id s of
             Some n \<Rightarrow> Some ((None, Some (take n s), None), n)
           | None \<Rightarrow>
               (case re_dot s of
                  Some n \<Rightarrow> Some ((None, None, Some (take n s)), n)
                | None \<Rightarrow> None)))"

text \<open>
  \<open>TOKEN_RE\<close>: \<open>\s*\<close> takes the whole run of white space and gives characters back
  while the group after it fails.
\<close>

definition TOKEN_RE :: "ucd \<Rightarrow> pystr \<Rightarrow> (groups \<times> nat) option" where
  "TOKEN_RE U s =
     backtrack 0 (run (isspace U) s)
       (\<lambda>k. case token_alt U (drop k s) of
               Some (g, n) \<Rightarrow> Some (g, k + n)
             | None \<Rightarrow> None)"

record ExprLexer =
  tokens :: "tok list"
  pos :: nat

text \<open>Truth value of an optional string: \<open>None\<close> and \<open>""\<close> are false.\<close>

definition truthy :: "pystr option \<Rightarrow> bool" where
  "truthy x = (case x of None \<Rightarrow> False | Some s \<Rightarrow> s \<noteq> [])"

text \<open>\<open>a in b\<close> on strings: \<open>a\<close> is a substring of \<open>b\<close>.\<close>

definition str_in :: "pystr \<Rightarrow> pystr \<Rightarrow> bool" where
  "str_in a b = list_ex (\<lambda>i. take (length a) (drop i b) = a) [0 ..< Suc (length b)]"

text \<open>
  The body of the loop of \<open>ExprLexer.__init__\<close> for one match. \<open>None in "+-*/()"\<close>
  raises \<open>TypeError\<close>.
\<close>

fun add_token :: "groups \<Rightarrow> tok list \<Rightarrow> error + tok list" where
  "add_token (num, ident, other) toks =
     (if truthy num then
        (if of_char CHR ''.'' \<in> set (the num)
         then Inr (toks @ [(py ''NUMBER'', the num)])
         else Inr (toks @ [(py ''NUMBER'', the num)]))
      else if truthy ident then Inr (toks @ [(py ''ID'', the ident)])
      else case other of
             None \<Rightarrow> Inl TypeError
           | Some ot \<Rightarrow>
               if str_in ot (py ''+-*/()'') then Inr (toks @ [(ot, ot)])
               else if ot = [] then Inr toks
               else Inr (toks @ [(py ''ERROR'', ot)]))"

fun lexer_loop :: "(groups \<times> pystr \<times> nat) list \<Rightarrow> tok list \<Rightarrow> error + tok list" where
  "lexer_loop [] toks = Inr toks"
| "lexer_loop ((g, val, start) # ms) toks =
     (case add_token g toks of
        Inl e \<Rightarrow> Inl e
      | Inr toks' \<Rightarrow> lexer_loop ms toks')"

text \<open>\<open>ExprLexer(text)\<close>.\<close>

definition ExprLexer_init :: "ucd \<Rightarrow> pystr \<Rightarrow> error + ExprLexer" where
  "ExprLexer_init U text =
     (case lexer_loop (finditer (TOKEN_RE U) 0 text) [] of
        Inl e \<Rightarrow> Inl e
      | Inr toks \<Rightarrow> Inr \<lparr>tokens = toks, pos = 0\<rparr>)"

definition peek :: "ExprLexer \<Rightarrow> tok" where
  "peek lx = (if pos lx < length (tokens lx) then tokens lx ! pos lx else (py ''EOF'', []))"

definition next_tok :: "ExprLexer \<Rightarrow> tok \<times> ExprLexer" where
  "next_tok lx = (let t = peek lx in (t, lx\<lparr>pos := pos lx + 1\<rparr>))"

section \<open>The recursive-descent parser\<close>

datatype AST = Number pystr | Identifier pystr | BinOp pystr AST AST

text \<open>
  The closures \<open>F\<close>, \<open>T\<close> and \<open>E\<close> of \<open>parse_expression\<close> share the lexer \<open>lex\<close>; here
  each takes the lexer and returns the node with the lexer it leaves, or the error it
  raises. \<open>T_loop\<close> and \<open>E_loop\<close> are the \<open>while\<close> loops of \<open>T\<close> and \<open>E\<close>, from the test
  of the condition, with \<open>node\<close> as built so far.
\<close>

function F :: "ExprLexer \<Rightarrow> error + (AST \<times> ExprLexer)"
  and T :: "ExprLexer \<Rightarrow> error + (AST \<times> ExprLexer)"
  and T_loop :: "AST \<Rightarrow> ExprLexer \<Rightarrow> error + (AST \<times> ExprLexer)"
  and E :: "ExprLexer \<Rightarrow> error + (AST \<times> ExprLexer)"
  and E_loop :: "AST \<Rightarrow> ExprLexer \<Rightarrow> error + (AST \<times> ExprLexer)"
where
  "F lx =
     (let tok = peek lx in
      if fst tok = py ''NUMBER'' then Inr (Number (snd tok), snd (next_tok lx))
      else if fst tok = py ''ID'' then Inr (Identifier (snd tok), snd (next_tok lx))
      else if fst tok = py ''('' then
        (case E (snd (next_tok lx)) of
           Inl e \<Rightarrow> Inl e
         | Inr (node, lex1) \<Rightarrow>
             if fst (peek lex1) \<noteq> py '')'' then Inl (SyntaxError ClosingParenExpected)
             else Inr (node, snd (next_tok lex1)))
      else Inl (SyntaxError (UnexpectedTokenInF tok)))"
| "T lx =
     (case F lx of
        Inl e \<Rightarrow> Inl e
      | Inr (node, lex1) \<Rightarrow> T_loop node lex1)"
| "T_loop node lx =
     (if fst (peek lx) \<in> set [py ''*'', py ''/''] then
        (case F (snd (next_tok lx)) of
           Inl e \<Rightarrow> Inl e
         | Inr (right, lex2) \<Rightarrow> T_loop (BinOp (fst (fst (next_tok lx))) node right) lex2)
      else Inr (node, lx))"
| "E lx =
     (case T lx of
        Inl e \<Rightarrow> Inl e
      | Inr (node, lex1) \<Rightarrow> E_loop node lex1)"
| "E_loop node lx =
     (if fst (peek lx) \<in> set [py ''+'', py ''-''] then
        (case T (snd (next_tok lx)) of
           Inl e \<Rightarrow> Inl e
         | Inr (right, lex2) \<Rightarrow> E_loop (BinOp (fst (fst (next_tok lx))) node right) lex2)
      else Inr (node, lx))"
  by pat_completeness auto


text \<open>
  Termination: a call that returns leaves the tokens as they are and the cursor no
  further left, and every call made after the first one of a body follows a token
  that was consumed.
\<close>

lemma peek_not_EOF: "fst (peek lx) \<noteq> py ''EOF'' \<Longrightarrow> pos lx < length (tokens lx)"
  by (simp add: peek_def split: if_splits)

lemma next_tok_simps [simp]:
  "tokens (snd (next_tok lx)) = tokens lx" "pos (snd (next_tok lx)) = Suc (pos lx)"
  "fst (next_tok lx) = peek lx"
  by (simp_all add: next_tok_def Let_def)

lemma parser_advances_dom:
  "F_T_T_loop_E_E_loop_dom (Inl (Inl l1)) \<Longrightarrow> F l1 = Inr (n1, r1) \<Longrightarrow>
     tokens r1 = tokens l1 \<and> pos l1 \<le> pos r1"
  "F_T_T_loop_E_E_loop_dom (Inl (Inr l2)) \<Longrightarrow> T l2 = Inr (n2, r2) \<Longrightarrow>
     tokens r2 = tokens l2 \<and> pos l2 \<le> pos r2"
  "F_T_T_loop_E_E_loop_dom (Inr (Inl (a3, l3))) \<Longrightarrow> T_loop a3 l3 = Inr (n3, r3) \<Longrightarrow>
     tokens r3 = tokens l3 \<and> pos l3 \<le> pos r3"
  "F_T_T_loop_E_E_loop_dom (Inr (Inr (Inl l4))) \<Longrightarrow> E l4 = Inr (n4, r4) \<Longrightarrow>
     tokens r4 = tokens l4 \<and> pos l4 \<le> pos r4"
  "F_T_T_loop_E_E_loop_dom (Inr (Inr (Inr (a5, l5)))) \<Longrightarrow> E_loop a5 l5 = Inr (n5, r5) \<Longrightarrow>
     tokens r5 = tokens l5 \<and> pos l5 \<le> pos r5"
proof (induct l1 and l2 and a3 l3 and l4 and a5 l5
    arbitrary: n1 r1 and n2 r2 and n3 r3 and n4 r4 and n5 r5
    rule: F_T_T_loop_E_E_loop.pinduct)
  case (1 lx)
  note res = "1.prems" [unfolded F.psimps [OF "1.hyps"(1)] Let_def]
  show ?case
  proof (cases "fst (peek lx) = py ''NUMBER'' \<or> fst (peek lx) = py ''ID''")
    case True
    with res have "r1 = snd (next_tok lx)"
      by (auto split: if_splits)
    then show ?thesis by simp
  next
    case False
    with res have paren: "fst (peek lx) = py ''(''"
      by (auto split: if_splits)
    with False res obtain lx1 where e: "E (snd (next_tok lx)) = Inr (n1, lx1)"
      and r: "r1 = snd (next_tok lx1)"
      by (auto split: sum.splits if_splits)
    from "1.hyps"(2) [OF refl _ _ paren e] False
    have "tokens lx1 = tokens (snd (next_tok lx)) \<and> pos (snd (next_tok lx)) \<le> pos lx1"
      by simp
    with r show ?thesis by simp
  qed
next
  case (2 lx)
  note res = "2.prems" [unfolded T.psimps [OF "2.hyps"(1)]]
  from res obtain node lx1 where f: "F lx = Inr (node, lx1)"
    and t: "T_loop node lx1 = Inr (n2, r2)"
    by (auto split: sum.splits)
  from "2.hyps"(2) [OF f] "2.hyps"(3) [OF f refl t] show ?case by simp
next
  case (3 node lx)
  note res = "3.prems" [unfolded T_loop.psimps [OF "3.hyps"(1)]]
  show ?case
  proof (cases "fst (peek lx) \<in> set [py ''*'', py ''/'']")
    case True
    with res obtain right lx2 where f: "F (snd (next_tok lx)) = Inr (right, lx2)"
      and t: "T_loop (BinOp (fst (fst (next_tok lx))) node right) lx2 = Inr (n3, r3)"
      by (auto split: sum.splits)
    from "3.hyps"(2) [OF True f] "3.hyps"(3) [OF True f refl t] show ?thesis by simp
  next
    case False
    with res show ?thesis by simp
  qed
next
  case (4 lx)
  note res = "4.prems" [unfolded E.psimps [OF "4.hyps"(1)]]
  from res obtain node lx1 where f: "T lx = Inr (node, lx1)"
    and t: "E_loop node lx1 = Inr (n4, r4)"
    by (auto split: sum.splits)
  from "4.hyps"(2) [OF f] "4.hyps"(3) [OF f refl t] show ?case by simp
next
  case (5 node lx)
  note res = "5.prems" [unfolded E_loop.psimps [OF "5.hyps"(1)]]
  show ?case
  proof (cases "fst (peek lx) \<in> set [py ''+'', py ''-'']")
    case True
    with res obtain right lx2 where f: "T (snd (next_tok lx)) = Inr (right, lx2)"
      and t: "E_loop (BinOp (fst (fst (next_tok lx))) node right) lx2 = Inr (n5, r5)"
      by (auto split: sum.splits)
    from "5.hyps"(2) [OF True f] "5.hyps"(3) [OF True f refl t] show ?thesis by simp
  next
    case False
    with res show ?thesis by simp
  qed
qed


lemma peek_kind_pos:
  "fst (peek lx) = py ''('' \<or> fst (peek lx) \<in> set [py ''*'', py ''/'']
     \<or> fst (peek lx) \<in> set [py ''+'', py ''-''] \<Longrightarrow> pos lx < length (tokens lx)"
  by (rule peek_not_EOF) (auto simp: py_def)

termination F
proof (relation "measure (\<lambda>x. case x of
           Inl (Inl lx) \<Rightarrow> 5 * (length (tokens lx) - pos lx)
         | Inl (Inr lx) \<Rightarrow> 5 * (length (tokens lx) - pos lx) + 2
         | Inr (Inl (node, lx)) \<Rightarrow> 5 * (length (tokens lx) - pos lx) + 1
         | Inr (Inr (Inl lx)) \<Rightarrow> 5 * (length (tokens lx) - pos lx) + 4
         | Inr (Inr (Inr (node, lx))) \<Rightarrow> 5 * (length (tokens lx) - pos lx) + 3)",
       goal_cases)
  case 1
  show ?case by simp
next
  case (2 lx x)
  then have "pos lx < length (tokens lx)" by (simp add: peek_kind_pos)
  then show ?case by simp
next
  case (3 lx)
  show ?case by simp
next
  case (4 lx b x y)
  from 4(1,2) have "F lx = Inr (x, y)" by simp
  from parser_advances_dom(1) [OF 4(3) this]
  have "length (tokens y) - pos y \<le> length (tokens lx) - pos lx" by auto
  then show ?case by simp
next
  case (5 node lx)
  then have "pos lx < length (tokens lx)" by (simp add: peek_kind_pos)
  then show ?case by simp
next
  case (6 node lx b x y)
  from 6(1) have p: "pos lx < length (tokens lx)" by (simp add: peek_kind_pos)
  from 6(2,3) have "F (snd (next_tok lx)) = Inr (x, y)" by simp
  from parser_advances_dom(1) [OF 6(4) this] p
  have "length (tokens y) - pos y < length (tokens lx) - pos lx" by auto
  then show ?case by simp
next
  case (7 lx)
  show ?case by simp
next
  case (8 lx b x y)
  from 8(1,2) have "T lx = Inr (x, y)" by simp
  from parser_advances_dom(2) [OF 8(3) this]
  have "length (tokens y) - pos y \<le> length (tokens lx) - pos lx" by auto
  then show ?case by simp
next
  case (9 node lx)
  then have "pos lx < length (tokens lx)" by (simp add: peek_kind_pos)
  then show ?case by simp
next
  case (10 node lx b x y)
  from 10(1) have p: "pos lx < length (tokens lx)" by (simp add: peek_kind_pos)
  from 10(2,3) have "T (snd (next_tok lx)) = Inr (x, y)" by simp
  from parser_advances_dom(2) [OF 10(4) this] p
  have "length (tokens y) - pos y < length (tokens lx) - pos lx" by auto
  then show ?case by simp
qed

text \<open>\<open>parse_expression(text)\<close>.\<close>

definition parse_expression :: "ucd \<Rightarrow> pystr \<Rightarrow> error + AST" where
  "parse_expression U text =
     (case ExprLexer_init U text of
        Inl e \<Rightarrow> Inl e
      | Inr lx \<Rightarrow>
          (case E lx of
             Inl e \<Rightarrow> Inl e
           | Inr (ast, lx1) \<Rightarrow>
               if fst (peek lx1) \<noteq> py ''EOF''
               then Inl (SyntaxError ExtraInputAfterExpression)
               else Inr ast))"

section \<open>Notions used in the statements\<close>

text \<open>The table with no character above U+00FF, for the closed examples.\<close>

definition ucd_none :: ucd where
  "ucd_none = \<lparr>ucd_alpha = (\<lambda>c. False), ucd_decimal = (\<lambda>c. False), ucd_digit = (\<lambda>c. False),
                ucd_numeric = (\<lambda>c. False), ucd_space = (\<lambda>c. False)\<rparr>"

text \<open>Matches of a pattern whose matches are never empty and never longer than the text.\<close>

definition proper :: "(pystr \<Rightarrow> ('g \<times> nat) option) \<Rightarrow> bool" where
  "proper m = (\<forall>s g n. m s = Some (g, n) \<longrightarrow> 1 \<le> n \<and> n \<le> length s)"

text \<open>
  The token that the body of the loop of \<open>tokenize\<close> appends for a match outside
  \<open>SKIP\<close>.
\<close>

definition emitted :: "pystr \<times> pystr \<times> nat \<Rightarrow> token" where
  "emitted m =
     (case m of (lastgroup, val, p) \<Rightarrow>
        (if lastgroup = py ''ID'' \<and> val \<in> KEYWORDS then py ''KEYWORD''
         else if lastgroup = py ''UNKNOWN'' then py ''ERROR''
         else lastgroup, val, p))"

text \<open>The characters that a match of a rule before \<open>UNKNOWN\<close> can hold.\<close>

definition rule_char :: "ucd \<Rightarrow> pychar \<Rightarrow> bool" where
  "rule_char U c =
     (isdecimal U c \<or> c = of_char CHR ''.'' \<or> id_start c \<or> id_part c
      \<or> c \<in> set (py ''=!<>+-*/();,'') \<or> skip_class c)"

text \<open>\<open>n\<close> calls of \<open>next()\<close> one after the other: what they return, and the lexer left.\<close>

fun next_calls :: "nat \<Rightarrow> ExprLexer \<Rightarrow> tok list \<times> ExprLexer" where
  "next_calls 0 lx = ([], lx)"
| "next_calls (Suc n) lx =
     (let (t, lx1) = next_tok lx; (ts, lx2) = next_calls n lx1 in (t # ts, lx2))"

section \<open>Patterns: what a match is\<close>

lemma run_le: "run P s \<le> length s"
  by (simp add: run_def length_takeWhile_le)

lemma take_run: "take (run P s) s = takeWhile P s"
  unfolding run_def by (induction s) auto

lemma run_all_full: "c \<in> set (take (run P s) s) \<Longrightarrow> P c"
  by (auto simp: take_run dest: set_takeWhileD)

lemma run_all: "k \<le> run P s \<Longrightarrow> c \<in> set (take k s) \<Longrightarrow> P c"
  using set_take_subset_set_take [of k "run P s" s] by (auto dest: run_all_full)

lemma backtrack_Some:
  "backtrack lo k cont = Some r \<Longrightarrow> \<exists>j. lo \<le> j \<and> j \<le> k \<and> cont j = Some r"
proof (induction lo k cont rule: backtrack.induct)
  case (1 lo k cont)
  show ?case
  proof (cases "k < lo")
    case True
    with "1.prems" show ?thesis by simp
  next
    case False
    show ?thesis
    proof (cases "cont k")
      case (Some r')
      with False "1.prems" have "r' = r" by simp
      with Some False show ?thesis by (intro exI [of _ k]) simp
    next
      case None
      with False "1.prems" obtain j where k: "k = Suc j" and b: "backtrack lo j cont = Some r"
        by (cases k) auto
      from "1.IH" [OF False None k b] k show ?thesis by auto
    qed
  qed
qed

lemma re_float_Some:
  assumes "re_float U s = Some n"
  shows "1 \<le> n \<and> n \<le> length s \<and> (\<forall>c\<in>set (take n s). isdecimal U c \<or> c = 46)"
proof -
  from backtrack_Some [OF assms [unfolded re_float_def]]
  obtain k where k: "1 \<le> k" "k \<le> run (isdecimal U) s"
    and ck: "(case drop k s of [] \<Rightarrow> None
               | c # r \<Rightarrow> if c = of_char CHR ''.'' \<and> 1 \<le> run (isdecimal U) r
                          then Some (k + 1 + run (isdecimal U) r) else None) = Some n"
    by blast
  from ck obtain c r where d: "drop k s = c # r"
    by (cases "drop k s") auto
  from ck d have c: "c = 46" and r: "1 \<le> run (isdecimal U) r"
    and n: "n = k + 1 + run (isdecimal U) r"
    by (auto split: if_splits)
  have s: "s = take k s @ c # r" using d by (metis append_take_drop_id)
  from k run_le [of "isdecimal U" s] have kl: "k \<le> length s" by simp
  have len: "length s = k + 1 + length r"
    using arg_cong [OF s, of length] kl by simp
  have "take n (take k s @ c # r) = take k s @ c # take (run (isdecimal U) r) r"
    by (simp add: n kl)
  with s have tk: "take n s = take k s @ c # take (run (isdecimal U) r) r"
    by simp
  have "\<forall>x\<in>set (take n s). isdecimal U x \<or> x = 46"
  proof
    fix x assume "x \<in> set (take n s)"
    with tk have "x \<in> set (take k s) \<or> x = c \<or> x \<in> set (take (run (isdecimal U) r) r)"
      by auto
    with run_all [OF k(2)] run_all [OF order_refl, of x "isdecimal U" r] c
    show "isdecimal U x \<or> x = 46" by blast
  qed
  with n len run_le [of "isdecimal U" r] show ?thesis by simp
qed

lemma re_int_Some:
  "re_int U s = Some n \<Longrightarrow> 1 \<le> n \<and> n \<le> length s \<and> (\<forall>c\<in>set (take n s). isdecimal U c)"
  by (auto simp: re_int_def Let_def run_le split: if_splits dest: run_all_full)

lemma re_id_Some:
  assumes "re_id s = Some n"
  shows "1 \<le> n \<and> n \<le> length s \<and> id_start (hd s)
         \<and> (\<forall>c\<in>set (take n s). id_start c \<or> id_part c)"
proof (cases s)
  case Nil
  with assms show ?thesis by (simp add: re_id_def)
next
  case (Cons c r)
  with assms have c: "id_start c" and n: "n = 1 + run id_part r"
    by (auto simp: re_id_def split: if_splits)
  from n Cons have "take n s = c # take (run id_part r) r" by simp
  with c n Cons run_le [of id_part r] show ?thesis
    by (auto dest: run_all_full)
qed

lemma re_skip_Some:
  "re_skip s = Some n \<Longrightarrow> 1 \<le> n \<and> n \<le> length s \<and> (\<forall>c\<in>set (take n s). skip_class c)"
  by (auto simp: re_skip_def Let_def run_le split: if_splits dest: run_all_full)

lemma re_dot_Some: "re_dot s = Some n \<Longrightarrow> n = 1 \<and> s \<noteq> [] \<and> hd s \<noteq> 10"
  by (cases s) (auto simp: re_dot_def split: if_splits)

lemma lit_Some: "lit w s = Some n \<Longrightarrow> n = length w \<and> take n s = w"
  by (auto simp: lit_def split: if_splits)

lemma alt_lit_Some:
  "alt (map lit ws) s = Some n \<Longrightarrow> \<exists>w\<in>set ws. n = length w \<and> take n s = w"
  by (induction ws) (auto split: option.splits dest: lit_Some)

lemma py_names:
  "py ''FLOAT'' = [70, 76, 79, 65, 84]" "py ''INT'' = [73, 78, 84]" "py ''ID'' = [73, 68]"
  "py ''OP'' = [79, 80]" "py ''LPAREN'' = [76, 80, 65, 82, 69, 78]"
  "py ''RPAREN'' = [82, 80, 65, 82, 69, 78]" "py ''SEMI'' = [83, 69, 77, 73]"
  "py ''COMMA'' = [67, 79, 77, 77, 65]" "py ''SKIP'' = [83, 75, 73, 80]"
  "py ''UNKNOWN'' = [85, 78, 75, 78, 79, 87, 78]" "py ''ERROR'' = [69, 82, 82, 79, 82]"
  "py ''KEYWORD'' = [75, 69, 89, 87, 79, 82, 68]"
  by (simp_all add: py_def)

lemma named_alt_Cons_Some:
  "named_alt ((g', p) # rules) s = Some (g, n) \<longleftrightarrow>
     (p s = Some n \<and> g = g') \<or> (p s = None \<and> named_alt rules s = Some (g, n))"
  by (cases "p s") auto

lemma MASTER_cases:
  assumes "MASTER U s = Some (g, n)"
  shows "(g = py ''FLOAT'' \<and> re_float U s = Some n)
       \<or> (g = py ''INT'' \<and> re_int U s = Some n)
       \<or> (g = py ''ID'' \<and> re_id s = Some n)
       \<or> (g = py ''OP'' \<and> alt (map lit [py ''=='', py ''!='', py ''<='', py ''>='',
                                py ''+'', py ''-'', py ''*'', py ''/'', py ''='']) s = Some n)
       \<or> (g = py ''LPAREN'' \<and> lit (py ''('') s = Some n)
       \<or> (g = py ''RPAREN'' \<and> lit (py '')'') s = Some n)
       \<or> (g = py ''SEMI'' \<and> lit (py '';'') s = Some n)
       \<or> (g = py ''COMMA'' \<and> lit (py '','') s = Some n)
       \<or> (g = py ''SKIP'' \<and> re_skip s = Some n)
       \<or> (g = py ''UNKNOWN'' \<and> re_skip s = None \<and> re_dot s = Some n)"
  using assms unfolding MASTER_def TOKEN_SPEC_def
  by (simp only: named_alt_Cons_Some named_alt.simps(1)) blast


lemma take_eq_bounds:
  "take (length w) s = w \<Longrightarrow> w \<noteq> [] \<Longrightarrow> 1 \<le> length w \<and> length w \<le> length s"
proof -
  assume t: "take (length w) s = w" and w: "w \<noteq> []"
  from arg_cong [OF t, of length] have "min (length s) (length w) = length w" by simp
  with w show ?thesis by (cases w) auto
qed

lemma lit_bounds: "lit w s = Some n \<Longrightarrow> w \<noteq> [] \<Longrightarrow> 1 \<le> n \<and> n \<le> length s"
  using take_eq_bounds [of w s] by (auto dest: lit_Some)

lemma op_bounds:
  assumes "alt (map lit [py ''=='', py ''!='', py ''<='', py ''>='',
                 py ''+'', py ''-'', py ''*'', py ''/'', py ''='']) s = Some n"
  shows "1 \<le> n \<and> n \<le> length s"
proof -
  from alt_lit_Some [OF assms] obtain w
    where m: "w \<in> set [py ''=='', py ''!='', py ''<='', py ''>='',
                 py ''+'', py ''-'', py ''*'', py ''/'', py ''='']"
      and n: "n = length w" and t: "take n s = w"
    by blast
  from m have "w \<noteq> []" by (auto simp: py_def)
  with take_eq_bounds [of w s] n t show ?thesis by simp
qed

lemma MASTER_bounds: "MASTER U s = Some (g, n) \<Longrightarrow> 1 \<le> n \<and> n \<le> length s"
  using MASTER_cases [of U s g n] re_float_Some [of U s n] re_int_Some [of U s n]
    re_id_Some [of s n] re_skip_Some [of s n] re_dot_Some [of s n] op_bounds [of s n]
    lit_bounds [of "py ''(''" s n] lit_bounds [of "py '')''" s n]
    lit_bounds [of "py '';''" s n] lit_bounds [of "py '',''" s n]
  by (cases s) (auto simp: py_def)

lemma MASTER_total: "s \<noteq> [] \<Longrightarrow> \<exists>g n. MASTER U s = Some (g, n)"
proof -
  assume "s \<noteq> []"
  then obtain c r where s: "s = c # r" by (cases s) auto
  have "re_skip s \<noteq> None \<or> re_dot s \<noteq> None"
    by (auto simp: s re_skip_def re_dot_def run_def skip_class_def)
  then have "named_alt [(py ''SKIP'', re_skip), (py ''UNKNOWN'', re_dot)] s \<noteq> None"
    by (auto split: option.splits)
  moreover have "\<And>pre post. named_alt post s \<noteq> None \<Longrightarrow> named_alt (pre @ post) s \<noteq> None"
  proof -
    fix pre post show "named_alt post s \<noteq> None \<Longrightarrow> named_alt (pre @ post) s \<noteq> None"
      by (induction pre) (auto split: option.splits)
  qed
  from this [of "[(py ''SKIP'', re_skip), (py ''UNKNOWN'', re_dot)]" "take 8 (TOKEN_SPEC U)"]
    calculation
  have "MASTER U s \<noteq> None"
    by (simp add: MASTER_def TOKEN_SPEC_def)
  then show ?thesis by auto
qed

section \<open>The matches of finditer\<close>

lemma properD: "proper m \<Longrightarrow> m s = Some (g, n) \<Longrightarrow> 1 \<le> n \<and> n \<le> length s"
  unfolding proper_def by blast

declare finditer.simps [simp del]

lemma finditer_Nil [simp]: "finditer m p0 [] = []"
  by (subst finditer.simps) simp

lemma finditer_None: "s \<noteq> [] \<Longrightarrow> m s = None \<Longrightarrow>
  finditer m p0 s = finditer m (p0 + 1) (drop 1 s)"
  by (subst finditer.simps) simp

lemma finditer_Some: "s \<noteq> [] \<Longrightarrow> m s = Some (g, n) \<Longrightarrow> 1 \<le> n \<Longrightarrow>
  finditer m p0 s = (g, take n s, p0) # finditer m (p0 + n) (drop n s)"
  by (subst finditer.simps) (simp add: max_def)

lemma finditer_match:
  assumes "proper m" and "(g, v, p) \<in> set (finditer m p0 s)"
  shows "p0 \<le> p \<and> p - p0 < length s \<and> m (drop (p - p0) s) = Some (g, length v)
         \<and> v = take (length v) (drop (p - p0) s) \<and> v \<noteq> []
         \<and> p + length v \<le> p0 + length s"
  using assms
proof (induction m p0 s rule: finditer.induct)
  case (1 m p0 s)
  show ?case
  proof (cases "s = []")
    case True
    with "1.prems" show ?thesis by simp
  next
    case False
    note ne = this and pr = "1.prems"(1) and prem = "1.prems"(2)
    show ?thesis
    proof (cases "m s")
      case None
      from prem have mem: "(g, v, p) \<in> set (finditer m (p0 + 1) (drop 1 s))"
        by (simp add: finditer_None [of s m p0, OF ne None])
      note ih = "1.IH"(1) [OF ne None pr mem]
      from ih have le: "p0 + 1 \<le> p" by blast
      then have e: "p - (p0 + 1) + 1 = p - p0" by simp
      have dd: "drop (p - (p0 + 1)) (drop 1 s) = drop (p - p0) s"
        by (simp only: drop_drop e)
      from ih [unfolded dd] le ne show ?thesis by auto
    next
      case (Some gn)
      obtain g' n where gn: "gn = (g', n)" by (cases gn)
      from Some gn have ms: "m s = Some (g', n)" by simp
      from properD [of m s g' n, OF pr ms] have n: "1 \<le> n" "n \<le> length s"
        by simp_all
      from prem finditer_Some [of s m g' n p0, OF ne ms n(1)]
      have "(g, v, p) = (g', take n s, p0) \<or> (g, v, p) \<in> set (finditer m (p0 + n) (drop n s))"
        by simp
      then show ?thesis
      proof
        assume "(g, v, p) = (g', take n s, p0)"
        with n ms ne show ?thesis by (simp add: min_def)
      next
        assume mem: "(g, v, p) \<in> set (finditer m (p0 + n) (drop n s))"
        have mx: "max 1 n = n" using n by simp
        from mem mx have mem': "(g, v, p) \<in> set (finditer m (p0 + max 1 n) (drop (max 1 n) s))"
          by simp
        note ih = "1.IH"(2) [OF ne Some gn [symmetric] pr mem', unfolded mx]
        from ih have le: "p0 + n \<le> p" by blast
        then have e: "p - (p0 + n) + n = p - p0" by simp
        have dd: "drop (p - (p0 + n)) (drop n s) = drop (p - p0) s"
          by (simp only: drop_drop e)
        from ih [unfolded dd] le n show ?thesis by auto
      qed
    qed
  qed
qed


lemma finditer_sorted:
  assumes "proper m"
  shows "sorted_wrt (<) (map (\<lambda>x. snd (snd x)) (finditer m p0 s))"
  using assms
proof (induction m p0 s rule: finditer.induct)
  case (1 m p0 s)
  note pr = "1.prems"
  show ?case
  proof (cases "s = []")
    case True
    then show ?thesis by simp
  next
    case False
    note ne = this
    show ?thesis
    proof (cases "m s")
      case None
      from "1.IH"(1) [OF ne None pr] show ?thesis
        by (simp add: finditer_None [of s m p0, OF ne None])
    next
      case (Some gn)
      obtain g' n where gn: "gn = (g', n)" by (cases gn)
      from Some gn have ms: "m s = Some (g', n)" by simp
      from properD [of m s g' n, OF pr ms] have n: "1 \<le> n" "n \<le> length s"
        by simp_all
      have mx: "max 1 n = n" using n by simp
      note ih = "1.IH"(2) [OF ne Some gn [symmetric] pr, unfolded mx]
      have "\<forall>x\<in>set (finditer m (p0 + n) (drop n s)). p0 < snd (snd x)"
      proof
        fix x assume x: "x \<in> set (finditer m (p0 + n) (drop n s))"
        obtain g v p where xx: "x = (g, v, p)" by (cases x)
        from finditer_match [OF pr x [unfolded xx]] n xx show "p0 < snd (snd x)" by simp
      qed
      with ih show ?thesis
        by (simp add: finditer_Some [of s m g' n p0, OF ne ms n(1)])
    qed
  qed
qed

lemma finditer_cover:
  assumes "proper m" and "\<forall>s. s \<noteq> [] \<longrightarrow> m s \<noteq> None" and "i < length s"
  shows "\<exists>x\<in>set (finditer m p0 s). snd (snd x) \<le> p0 + i \<and> p0 + i < snd (snd x) + length (fst (snd x))"
  using assms
proof (induction m p0 s arbitrary: i rule: finditer.induct)
  case (1 m p0 s)
  note pr = "1.prems"(1) and tot = "1.prems"(2) and i = "1.prems"(3)
  from i have ne: "s \<noteq> []" by auto
  with tot obtain g' n where ms: "m s = Some (g', n)" by (cases "m s") auto
  from properD [of m s g' n, OF pr ms] have n: "1 \<le> n" "n \<le> length s"
    by simp_all
  have mx: "max 1 n = n" using n by simp
  note unf = finditer_Some [of s m g' n p0, OF ne ms n(1)]
  show ?case
  proof (cases "i < n")
    case True
    with n show ?thesis by (simp add: unf min_def)
  next
    case False
    with i n have "i - n < length (drop n s)" by simp
    then have j: "i - n < length (drop (max 1 n) s)" by (simp only: mx)
    from "1.IH"(2) [OF ne ms refl pr tot j, unfolded mx] False
    show ?thesis by (simp add: unf)
  qed
qed

lemma MASTER_proper: "proper (MASTER U)"
  unfolding proper_def using MASTER_bounds by blast

lemma MASTER_total': "\<forall>s. s \<noteq> [] \<longrightarrow> MASTER U s \<noteq> None"
  using MASTER_total by fastforce

section \<open>The tokens of tokenize\<close>

lemma emitted_tuple:
  "emitted (g, v, p) =
     (if g = py ''ID'' \<and> v \<in> KEYWORDS then py ''KEYWORD''
      else if g = py ''UNKNOWN'' then py ''ERROR'' else g, v, p)"
  by (simp add: emitted_def)

lemma tokenize_loop_eq:
  "tokenize_loop ms acc = acc @ map emitted (filter (\<lambda>m. fst m \<noteq> py ''SKIP'') ms)"
  by (induction ms acc rule: tokenize_loop.induct)
     (simp_all add: emitted_tuple Let_def py_names)

lemma tokenize_eq:
  "tokenize U src = map emitted (filter (\<lambda>m. fst m \<noteq> py ''SKIP'') (finditer (MASTER U) 0 src))"
  by (simp add: tokenize_def tokenize_loop_eq)

lemma tokenize_match:
  assumes "(g, v, p) \<in> set (finditer (MASTER U) 0 src)"
  shows "p < length src \<and> MASTER U (drop p src) = Some (g, length v)
         \<and> v = take (length v) (drop p src) \<and> v \<noteq> [] \<and> p + length v \<le> length src"
  using finditer_match [OF MASTER_proper assms] by simp

lemma tokenize_token:
  "(k, v, p) \<in> set (tokenize U src) \<longleftrightarrow>
     (\<exists>g. (g, v, p) \<in> set (finditer (MASTER U) 0 src) \<and> g \<noteq> py ''SKIP''
          \<and> k = (if g = py ''ID'' \<and> v \<in> KEYWORDS then py ''KEYWORD''
                   else if g = py ''UNKNOWN'' then py ''ERROR'' else g))"
  unfolding tokenize_eq by (auto simp: emitted_tuple image_iff) 

lemma skip_not_decimal: "skip_class c \<Longrightarrow> \<not> isdecimal U c"
  by (auto simp: skip_class_def isdecimal_def)

lemma MASTER_nonspace:
  assumes "MASTER U s = Some (g, n)" and "g \<noteq> py ''SKIP''" and "c \<in> set (take n s)"
  shows "\<not> skip_class c"
proof
  assume sk: "skip_class c"
  have lits: "\<And>w. lit w s = Some n \<Longrightarrow> \<forall>x\<in>set w. \<not> skip_class x \<Longrightarrow> False"
    using sk assms(3) by (auto dest: lit_Some)
  from MASTER_cases [OF assms(1)] assms(2)
  consider "re_float U s = Some n" | "re_int U s = Some n" | "re_id s = Some n"
    | "alt (map lit [py ''=='', py ''!='', py ''<='', py ''>='',
                     py ''+'', py ''-'', py ''*'', py ''/'', py ''='']) s = Some n"
    | "lit (py ''('') s = Some n" | "lit (py '')'') s = Some n"
    | "lit (py '';'') s = Some n" | "lit (py '','') s = Some n"
    | "re_skip s = None" "re_dot s = Some n"
    by (elim disjE conjE) simp_all
  then show False
  proof cases
    case 1
    from re_float_Some [OF 1] assms(3) sk skip_not_decimal [OF sk, of U] show False
      by (auto simp: skip_class_def)
  next
    case 2
    from re_int_Some [OF 2] assms(3) skip_not_decimal [OF sk, of U] show False by auto
  next
    case 3
    from re_id_Some [OF 3] assms(3) sk show False
      by (auto simp: skip_class_def id_start_def id_part_def)
  next
    case 4
    from alt_lit_Some [OF 4] obtain w
      where m: "w \<in> set [py ''=='', py ''!='', py ''<='', py ''>='',
                 py ''+'', py ''-'', py ''*'', py ''/'', py ''='']"
        and t: "take n s = w"
      by blast
    from m have "\<forall>x\<in>set w. \<not> skip_class x" by (auto simp: py_def skip_class_def)
    with t assms(3) sk show False by auto
  next
    case 5 then show False by (rule lits) (simp add: py_def skip_class_def)
  next
    case 6 then show False by (rule lits) (simp add: py_def skip_class_def)
  next
    case 7 then show False by (rule lits) (simp add: py_def skip_class_def)
  next
    case 8 then show False by (rule lits) (simp add: py_def skip_class_def)
  next
    case 9
    from re_dot_Some [OF 9(2)] obtain a r where s: "s = a # r" and n: "n = 1"
      by (cases s) auto
    from 9(1) s have "\<not> skip_class a" by (auto simp: re_skip_def run_def split: if_splits)
    with s n assms(3) sk show False by simp
  qed
qed

lemma named_alt_append:
  "named_alt (pre @ post) s = (case named_alt pre s of Some r \<Rightarrow> Some r | None \<Rightarrow> named_alt post s)"
  by (induction pre) (auto split: option.splits)

lemma MASTER_split:
  "MASTER U s = (case named_alt (butlast (TOKEN_SPEC U)) s of
                   Some r \<Rightarrow> Some r
                 | None \<Rightarrow> (case re_dot s of Some n \<Rightarrow> Some (py ''UNKNOWN'', n) | None \<Rightarrow> None))"
proof -
  have "TOKEN_SPEC U = butlast (TOKEN_SPEC U) @ [(py ''UNKNOWN'', re_dot)]"
    by (simp add: TOKEN_SPEC_def)
  then have "MASTER U s = named_alt (butlast (TOKEN_SPEC U) @ [(py ''UNKNOWN'', re_dot)]) s"
    by (simp add: MASTER_def)
  then show ?thesis by (simp add: named_alt_append split: option.splits)
qed

lemma named_alt_names:
  "named_alt rules s = Some (g, n) \<Longrightarrow> g \<in> fst ` set rules"
  by (induction rules) (auto split: option.splits)

lemma MASTER_UNKNOWN_iff:
  "MASTER U s = Some (py ''UNKNOWN'', n) \<longleftrightarrow>
     s \<noteq> [] \<and> n = 1 \<and> named_alt (butlast (TOKEN_SPEC U)) s = None"
proof
  assume a: "MASTER U s = Some (py ''UNKNOWN'', n)"
  have "named_alt (butlast (TOKEN_SPEC U)) s = None"
  proof (cases "named_alt (butlast (TOKEN_SPEC U)) s")
    case None then show ?thesis .
  next
    case (Some r)
    with a have "named_alt (butlast (TOKEN_SPEC U)) s = Some (py ''UNKNOWN'', n)"
      by (simp add: MASTER_split)
    from named_alt_names [OF this] show ?thesis
      by (simp add: TOKEN_SPEC_def py_names)
  qed
  with a MASTER_bounds [OF a] re_dot_Some [of s n] show
    "s \<noteq> [] \<and> n = 1 \<and> named_alt (butlast (TOKEN_SPEC U)) s = None"
    by (auto simp: MASTER_split split: option.splits)
next
  assume a: "s \<noteq> [] \<and> n = 1 \<and> named_alt (butlast (TOKEN_SPEC U)) s = None"
  with MASTER_total [of s U] obtain g k where m: "MASTER U s = Some (g, k)" by auto
  with a re_dot_Some [of s k] show "MASTER U s = Some (py ''UNKNOWN'', n)"
    by (auto simp: MASTER_split split: option.splits)
qed

section \<open>Properties of the tokenizer\<close>

lemma tokenize_offsets_strict:
  "sorted_wrt (<) (map (\<lambda>t. snd (snd t)) (tokenize U src))"
proof -
  have e: "map (\<lambda>t. snd (snd t)) (tokenize U src)
        = map (\<lambda>x. snd (snd x)) (filter (\<lambda>m. fst m \<noteq> py ''SKIP'') (finditer (MASTER U) 0 src))"
    by (simp add: tokenize_eq emitted_def split_def comp_def)
  have "sorted_wrt (<) (map (\<lambda>x. snd (snd x)) (finditer (MASTER U) 0 src))"
    by (rule finditer_sorted [OF MASTER_proper])
  then have "sorted_wrt (<) (map (\<lambda>x. snd (snd x))
       (filter (\<lambda>m. fst m \<noteq> py ''SKIP'') (finditer (MASTER U) 0 src)))"
    by (simp add: sorted_wrt_map sorted_wrt_filter)
  with e show ?thesis by simp
qed

text \<open>
  C8. For every source text, the offsets of the tokens of \<open>tokenize\<close> do not decrease
  (they increase), the text of each token is a non-empty slice of the source that
  starts at the token's offset, and no token is white space: none has the kind
  \<open>SKIP\<close> and none holds a character of \<open>[ \t\r\n]\<close>. \<open>tokenize("x1 = 3.14;")\<close> gives
  the kinds \<open>ID, OP, FLOAT, SEMI\<close> with the texts \<open>x1\<close>, \<open>=\<close>, \<open>3.14\<close>, \<open>;\<close> at the
  offsets 0, 3, 5, 9.
\<close>

theorem tokenize_invariant:
  "sorted (map (\<lambda>t. snd (snd t)) (tokenize U src))
   \<and> (\<forall>(k, v, p)\<in>set (tokenize U src).
         v \<noteq> [] \<and> p + length v \<le> length src \<and> take (length v) (drop p src) = v
         \<and> k \<noteq> py ''SKIP'' \<and> (\<forall>c\<in>set v. \<not> skip_class c))
   \<and> tokenize U (py ''x1 = 3.14;'') =
        [(py ''ID'', py ''x1'', 0), (py ''OP'', py ''='', 3),
         (py ''FLOAT'', py ''3.14'', 5), (py ''SEMI'', py '';'', 9)]"
proof (intro conjI)
  show "sorted (map (\<lambda>t. snd (snd t)) (tokenize U src))"
    using tokenize_offsets_strict [of U src]
    by (simp add: strict_sorted_iff)
  show "\<forall>(k, v, p)\<in>set (tokenize U src).
         v \<noteq> [] \<and> p + length v \<le> length src \<and> take (length v) (drop p src) = v
         \<and> k \<noteq> py ''SKIP'' \<and> (\<forall>c\<in>set v. \<not> skip_class c)"
  proof (clarify, intro conjI)
    fix k v p assume t: "(k, v, p) \<in> set (tokenize U src)"
    from t [unfolded tokenize_token] obtain g
      where g: "(g, v, p) \<in> set (finditer (MASTER U) 0 src)" and ns: "g \<noteq> py ''SKIP''"
        and k: "k = (if g = py ''ID'' \<and> v \<in> KEYWORDS then py ''KEYWORD''
                   else if g = py ''UNKNOWN'' then py ''ERROR'' else g)"
      by blast
    note m = tokenize_match [OF g]
    from m show "v \<noteq> []" by blast
    from m show "p + length v \<le> length src" by blast
    from m show "take (length v) (drop p src) = v" by simp
    from k ns show "k \<noteq> py ''SKIP''" by (simp add: py_names split: if_splits)
    from m have mm: "MASTER U (drop p src) = Some (g, length v)"
      and vv: "v = take (length v) (drop p src)" by blast+
    show "\<forall>c\<in>set v. \<not> skip_class c"
    proof
      fix c assume "c \<in> set v"
      with vv have "c \<in> set (take (length v) (drop p src))" by simp
      from MASTER_nonspace [OF mm ns this] show "\<not> skip_class c" .
    qed
  qed
  show "tokenize U (py ''x1 = 3.14;'') =
        [(py ''ID'', py ''x1'', 0), (py ''OP'', py ''='', 3),
         (py ''FLOAT'', py ''3.14'', 5), (py ''SEMI'', py '';'', 9)]"
    by code_simp
qed

theorem tokenize_invariant_witness:
  "(py ''FLOAT'', py ''3.14'', 5) \<in> set (tokenize ucd_none (py ''x1 = 3.14;''))
   \<and> sorted [0, 3, 5, 9 :: nat]
   \<and> 5 + length (py ''3.14'') \<le> length (py ''x1 = 3.14;'')
   \<and> take (length (py ''3.14'')) (drop 5 (py ''x1 = 3.14;'')) = py ''3.14''
   \<and> \<not> skip_class (of_char CHR ''3'')"
proof -
  have ev: "tokenize ucd_none (py ''x1 = 3.14;'') =
        [(py ''ID'', py ''x1'', 0), (py ''OP'', py ''='', 3),
         (py ''FLOAT'', py ''3.14'', 5), (py ''SEMI'', py '';'', 9)]"
    by code_simp
  from tokenize_invariant [of ucd_none "py ''x1 = 3.14;''"] show ?thesis
    unfolding ev by (simp add: py_def)
qed


lemma token_in_tokenize:
  "(g, v, p) \<in> set (finditer (MASTER U) 0 src) \<Longrightarrow> g \<noteq> py ''SKIP'' \<Longrightarrow>
   (if g = py ''ID'' \<and> v \<in> KEYWORDS then py ''KEYWORD''
    else if g = py ''UNKNOWN'' then py ''ERROR'' else g, v, p) \<in> set (tokenize U src)"
  unfolding tokenize_token by blast

text \<open>
  C7. Every match of the rule \<open>ID\<close> is emitted with the kind \<open>KEYWORD\<close> when its text
  is one of the reserved words, and with the kind \<open>ID\<close> otherwise; every token of
  kind \<open>KEYWORD\<close> is a match of the rule \<open>ID\<close> whose text is a reserved word, and
  every token of kind \<open>ID\<close> is one whose text is not. \<open>tokenize("if x")\<close> gives the
  kinds \<open>KEYWORD, ID\<close>.
\<close>

theorem tokenize_keywords:
  "(\<forall>(g, v, p)\<in>set (finditer (MASTER U) 0 src).
       g = py ''ID'' \<longrightarrow>
         (if v \<in> KEYWORDS then py ''KEYWORD'' else py ''ID'', v, p) \<in> set (tokenize U src))
   \<and> (\<forall>(k, v, p)\<in>set (tokenize U src).
         (k = py ''KEYWORD'' \<longrightarrow>
            v \<in> KEYWORDS \<and> (py ''ID'', v, p) \<in> set (finditer (MASTER U) 0 src))
         \<and> (k = py ''ID'' \<longrightarrow>
            v \<notin> KEYWORDS \<and> (py ''ID'', v, p) \<in> set (finditer (MASTER U) 0 src)))
   \<and> map fst (tokenize U (py ''if x'')) = [py ''KEYWORD'', py ''ID'']"
proof (intro conjI)
  show "\<forall>(g, v, p)\<in>set (finditer (MASTER U) 0 src).
       g = py ''ID'' \<longrightarrow>
         (if v \<in> KEYWORDS then py ''KEYWORD'' else py ''ID'', v, p) \<in> set (tokenize U src)"
  proof (clarify)
    fix v p assume m: "(py ''ID'', v, p) \<in> set (finditer (MASTER U) 0 src)"
    have "py ''ID'' \<noteq> py ''SKIP''" by (simp add: py_names)
    from token_in_tokenize [OF m this]
    show "(if v \<in> KEYWORDS then py ''KEYWORD'' else py ''ID'', v, p) \<in> set (tokenize U src)"
      by (simp add: py_names split: if_splits)
  qed
  show "\<forall>(k, v, p)\<in>set (tokenize U src).
         (k = py ''KEYWORD'' \<longrightarrow>
            v \<in> KEYWORDS \<and> (py ''ID'', v, p) \<in> set (finditer (MASTER U) 0 src))
         \<and> (k = py ''ID'' \<longrightarrow>
            v \<notin> KEYWORDS \<and> (py ''ID'', v, p) \<in> set (finditer (MASTER U) 0 src))"
  proof (clarify)
    fix k v p assume t: "(k, v, p) \<in> set (tokenize U src)"
    from t [unfolded tokenize_token] obtain g
      where g: "(g, v, p) \<in> set (finditer (MASTER U) 0 src)" and ns: "g \<noteq> py ''SKIP''"
        and k: "k = (if g = py ''ID'' \<and> v \<in> KEYWORDS then py ''KEYWORD''
                   else if g = py ''UNKNOWN'' then py ''ERROR'' else g)"
      by blast
    from MASTER_cases [of U "drop p src" g "length v"] tokenize_match [OF g]
    have names: "g \<noteq> py ''KEYWORD''" by (auto simp: py_names)
    from k names g
    show "(k = py ''KEYWORD'' \<longrightarrow>
            v \<in> KEYWORDS \<and> (py ''ID'', v, p) \<in> set (finditer (MASTER U) 0 src))
         \<and> (k = py ''ID'' \<longrightarrow>
            v \<notin> KEYWORDS \<and> (py ''ID'', v, p) \<in> set (finditer (MASTER U) 0 src))"
      by (auto simp: py_names split: if_splits)
  qed
  show "map fst (tokenize U (py ''if x'')) = [py ''KEYWORD'', py ''ID'']"
    by code_simp
qed

theorem tokenize_keywords_witness:
  "(py ''ID'', py ''if'', 0) \<in> set (finditer (MASTER ucd_none) 0 (py ''if x''))
   \<and> py ''if'' \<in> KEYWORDS
   \<and> (py ''KEYWORD'', py ''if'', 0) \<in> set (tokenize ucd_none (py ''if x''))
   \<and> (py ''ID'', py ''x'', 3) \<in> set (finditer (MASTER ucd_none) 0 (py ''if x''))
   \<and> py ''x'' \<notin> KEYWORDS
   \<and> (py ''ID'', py ''x'', 3) \<in> set (tokenize ucd_none (py ''if x''))"
proof -
  have ev: "finditer (MASTER ucd_none) 0 (py ''if x'') =
      [(py ''ID'', py ''if'', 0), (py ''SKIP'', py '' '', 2), (py ''ID'', py ''x'', 3)]"
    by code_simp
  have kw: "py ''if'' \<in> KEYWORDS" "py ''x'' \<notin> KEYWORDS"
    by (simp_all add: KEYWORDS_def py_def)
  from tokenize_keywords [of ucd_none "py ''if x''"] kw show ?thesis
    unfolding ev by simp
qed


lemma MASTER_chars:
  assumes "MASTER U s = Some (g, n)" and "g \<noteq> py ''UNKNOWN''" and "c \<in> set (take n s)"
  shows "rule_char U c"
proof -
  have lits: "\<And>w. lit w s = Some n \<Longrightarrow> \<forall>x\<in>set w. rule_char U x \<Longrightarrow> rule_char U c"
    using assms(3) by (auto dest: lit_Some)
  from MASTER_cases [OF assms(1)] assms(2)
  consider "re_float U s = Some n" | "re_int U s = Some n" | "re_id s = Some n"
    | "alt (map lit [py ''=='', py ''!='', py ''<='', py ''>='',
                     py ''+'', py ''-'', py ''*'', py ''/'', py ''='']) s = Some n"
    | "lit (py ''('') s = Some n" | "lit (py '')'') s = Some n"
    | "lit (py '';'') s = Some n" | "lit (py '','') s = Some n"
    | "re_skip s = Some n"
    by (elim disjE conjE) simp_all
  then show ?thesis
  proof cases
    case 1
    from re_float_Some [OF 1] assms(3) show ?thesis by (auto simp: rule_char_def)
  next
    case 2
    from re_int_Some [OF 2] assms(3) show ?thesis by (auto simp: rule_char_def)
  next
    case 3
    from re_id_Some [OF 3] assms(3) show ?thesis by (auto simp: rule_char_def)
  next
    case 4
    from alt_lit_Some [OF 4] obtain w
      where m: "w \<in> set [py ''=='', py ''!='', py ''<='', py ''>='',
                 py ''+'', py ''-'', py ''*'', py ''/'', py ''='']"
        and t: "take n s = w"
      by blast
    from m have "\<forall>x\<in>set w. rule_char U x" by (auto simp: py_def rule_char_def)
    with t assms(3) show ?thesis by auto
  next
    case 5 then show ?thesis by (rule lits) (simp add: py_def rule_char_def)
  next
    case 6 then show ?thesis by (rule lits) (simp add: py_def rule_char_def)
  next
    case 7 then show ?thesis by (rule lits) (simp add: py_def rule_char_def)
  next
    case 8 then show ?thesis by (rule lits) (simp add: py_def rule_char_def)
  next
    case 9
    from re_skip_Some [OF 9] assms(3) show ?thesis by (auto simp: rule_char_def)
  qed
qed

lemma match_covers:
  assumes "i < length src"
  shows "\<exists>g v p. (g, v, p) \<in> set (finditer (MASTER U) 0 src) \<and> p \<le> i \<and> i < p + length v
           \<and> src ! i \<in> set (take (length v) (drop p src))"
proof -
  from finditer_cover [OF MASTER_proper MASTER_total' assms, of U 0]
  obtain g v p where m: "(g, v, p) \<in> set (finditer (MASTER U) 0 src)"
    and b: "p \<le> i" "i < p + length v"
    by auto
  from tokenize_match [OF m] have le: "p + length v \<le> length src" by blast
  from b have "(take (length v) (drop p src)) ! (i - p) = src ! i"
    using le by simp
  moreover from b le have "i - p < length (take (length v) (drop p src))" by simp
  ultimately have "src ! i \<in> set (take (length v) (drop p src))"
    by (metis nth_mem)
  with m b show ?thesis by blast
qed


lemma unknown_match:
  assumes "(g, v, p) \<in> set (finditer (MASTER U) 0 src)"
  shows "g = py ''UNKNOWN'' \<longleftrightarrow> named_alt (butlast (TOKEN_SPEC U)) (drop p src) = None"
    and "g = py ''UNKNOWN'' \<Longrightarrow> v = [src ! p]"
proof -
  note m = tokenize_match [OF assms]
  from m have mm: "MASTER U (drop p src) = Some (g, length v)" by blast
  show "g = py ''UNKNOWN'' \<longleftrightarrow> named_alt (butlast (TOKEN_SPEC U)) (drop p src) = None"
  proof
    assume "g = py ''UNKNOWN''"
    with mm MASTER_UNKNOWN_iff [of U "drop p src" "length v"]
    show "named_alt (butlast (TOKEN_SPEC U)) (drop p src) = None" by simp
  next
    assume "named_alt (butlast (TOKEN_SPEC U)) (drop p src) = None"
    with mm show "g = py ''UNKNOWN''"
      by (auto simp: MASTER_split split: option.splits)
  qed
  assume "g = py ''UNKNOWN''"
  with mm MASTER_UNKNOWN_iff [of U "drop p src" "length v"] have l: "length v = 1" by simp
  from m have "v = take (length v) (drop p src)" and "p < length src" by blast+
  with l show "v = [src ! p]"
    by (cases "drop p src") (auto simp: hd_drop_conv_nth [symmetric])
qed

text \<open>
  C6. \<open>tokenize\<close> is a total function of the source text: it has no run that raises.
  The sequence it returns is complete: every character outside \<open>[ \t\r\n]\<close> lies in
  a token, also after an \<open>ERROR\<close> token. At each position where the scan stands and
  none of the rules before \<open>UNKNOWN\<close> matches, the token \<open>ERROR\<close> with that one
  character is emitted at that offset; every \<open>ERROR\<close> token is such a one; a
  character that none of those rules can read gives an \<open>ERROR\<close> token wherever it
  stands; and no two tokens share an offset. \<open>tokenize("@")\<close> is the one token
  \<open>ERROR\<close> with the text \<open>@\<close>.
\<close>

theorem tokenize_error_tolerant:
  "(\<forall>i<length src. \<not> skip_class (src ! i) \<longrightarrow>
       (\<exists>(k, v, p)\<in>set (tokenize U src). p \<le> i \<and> i < p + length v))
   \<and> (\<forall>(g, v, p)\<in>set (finditer (MASTER U) 0 src).
         named_alt (butlast (TOKEN_SPEC U)) (drop p src) = None \<longrightarrow>
           g = py ''UNKNOWN'' \<and> v = [src ! p]
           \<and> (py ''ERROR'', [src ! p], p) \<in> set (tokenize U src))
   \<and> (\<forall>(k, v, p)\<in>set (tokenize U src).
         k = py ''ERROR'' \<longrightarrow>
           p < length src \<and> v = [src ! p]
           \<and> named_alt (butlast (TOKEN_SPEC U)) (drop p src) = None)
   \<and> (\<forall>i<length src. \<not> rule_char U (src ! i) \<longrightarrow>
         (py ''ERROR'', [src ! i], i) \<in> set (tokenize U src))
   \<and> distinct (map (\<lambda>t. snd (snd t)) (tokenize U src))
   \<and> tokenize U (py ''@'') = [(py ''ERROR'', py ''@'', 0)]"
proof (intro conjI)
  show "\<forall>i<length src. \<not> skip_class (src ! i) \<longrightarrow>
       (\<exists>(k, v, p)\<in>set (tokenize U src). p \<le> i \<and> i < p + length v)"
  proof (intro allI impI)
    fix i assume i: "i < length src" and ns: "\<not> skip_class (src ! i)"
    from match_covers [OF i, of U] obtain g v p
      where m: "(g, v, p) \<in> set (finditer (MASTER U) 0 src)" and b: "p \<le> i" "i < p + length v"
        and c: "src ! i \<in> set (take (length v) (drop p src))"
      by blast
    from tokenize_match [OF m] have mm: "MASTER U (drop p src) = Some (g, length v)" by blast
    have "g \<noteq> py ''SKIP''"
    proof
      assume "g = py ''SKIP''"
      with MASTER_cases [OF mm] have "re_skip (drop p src) = Some (length v)"
        by (auto simp: py_names)
      from re_skip_Some [OF this] c ns show False by blast
    qed
    from token_in_tokenize [OF m this] b
    show "\<exists>(k, v, p)\<in>set (tokenize U src). p \<le> i \<and> i < p + length v"
      by blast
  qed
  show "\<forall>(g, v, p)\<in>set (finditer (MASTER U) 0 src).
         named_alt (butlast (TOKEN_SPEC U)) (drop p src) = None \<longrightarrow>
           g = py ''UNKNOWN'' \<and> v = [src ! p]
           \<and> (py ''ERROR'', [src ! p], p) \<in> set (tokenize U src)"
  proof (clarify)
    fix g v p assume m: "(g, v, p) \<in> set (finditer (MASTER U) 0 src)"
      and n: "named_alt (butlast (TOKEN_SPEC U)) (drop p src) = None"
    from unknown_match(1) [OF m] n have g: "g = py ''UNKNOWN''" by simp
    from unknown_match(2) [OF m g] have v: "v = [src ! p]" .
    have "py ''UNKNOWN'' \<noteq> py ''SKIP''" by (simp add: py_names)
    from token_in_tokenize [OF m [unfolded g] this] g v
    show "g = py ''UNKNOWN'' \<and> v = [src ! p]
           \<and> (py ''ERROR'', [src ! p], p) \<in> set (tokenize U src)"
      by (simp add: py_names)
  qed
  show "\<forall>(k, v, p)\<in>set (tokenize U src).
         k = py ''ERROR'' \<longrightarrow>
           p < length src \<and> v = [src ! p]
           \<and> named_alt (butlast (TOKEN_SPEC U)) (drop p src) = None"
  proof (clarify)
    fix v p assume t: "(py ''ERROR'', v, p) \<in> set (tokenize U src)"
    from t [unfolded tokenize_token] obtain g
      where m: "(g, v, p) \<in> set (finditer (MASTER U) 0 src)"
        and k: "py ''ERROR'' = (if g = py ''ID'' \<and> v \<in> KEYWORDS then py ''KEYWORD''
                   else if g = py ''UNKNOWN'' then py ''ERROR'' else g)"
      by blast
    from MASTER_cases [of U "drop p src" g "length v"] tokenize_match [OF m]
    have "g \<noteq> py ''ERROR''" by (auto simp: py_names)
    with k have g: "g = py ''UNKNOWN''" by (auto simp: py_names split: if_splits)
    from unknown_match(1) [OF m] unknown_match(2) [OF m g] g tokenize_match [OF m]
    show "p < length src \<and> v = [src ! p]
           \<and> named_alt (butlast (TOKEN_SPEC U)) (drop p src) = None"
      by blast
  qed
  show "\<forall>i<length src. \<not> rule_char U (src ! i) \<longrightarrow>
         (py ''ERROR'', [src ! i], i) \<in> set (tokenize U src)"
  proof (intro allI impI)
    fix i assume i: "i < length src" and nr: "\<not> rule_char U (src ! i)"
    from match_covers [OF i, of U] obtain g v p
      where m: "(g, v, p) \<in> set (finditer (MASTER U) 0 src)" and b: "p \<le> i" "i < p + length v"
        and c: "src ! i \<in> set (take (length v) (drop p src))"
      by blast
    from tokenize_match [OF m] have mm: "MASTER U (drop p src) = Some (g, length v)" by blast
    from MASTER_chars [OF mm _ c] nr have g: "g = py ''UNKNOWN''" by blast
    from unknown_match(2) [OF m g] have v: "v = [src ! p]" .
    with b have ip: "i = p" by simp
    have "py ''UNKNOWN'' \<noteq> py ''SKIP''" by (simp add: py_names)
    from token_in_tokenize [OF m [unfolded g] this] v ip
    show "(py ''ERROR'', [src ! i], i) \<in> set (tokenize U src)"
      by (simp add: py_names)
  qed
  show "distinct (map (\<lambda>t. snd (snd t)) (tokenize U src))"
    using tokenize_offsets_strict [of U src] by (simp add: strict_sorted_iff)
  show "tokenize U (py ''@'') = [(py ''ERROR'', py ''@'', 0)]"
    by code_simp
qed

theorem tokenize_error_tolerant_witness:
  "\<not> skip_class (py ''a@ $b'' ! 4)
   \<and> (\<exists>(k, v, p)\<in>set (tokenize ucd_none (py ''a@ $b'')). p \<le> 4 \<and> 4 < p + length v)
   \<and> (py ''UNKNOWN'', py ''@'', 1) \<in> set (finditer (MASTER ucd_none) 0 (py ''a@ $b''))
   \<and> named_alt (butlast (TOKEN_SPEC ucd_none)) (drop 1 (py ''a@ $b'')) = None
   \<and> (py ''ERROR'', [py ''a@ $b'' ! 1], 1) \<in> set (tokenize ucd_none (py ''a@ $b''))
   \<and> \<not> rule_char ucd_none (py ''a@ $b'' ! 3)
   \<and> (py ''ERROR'', [py ''a@ $b'' ! 3], 3) \<in> set (tokenize ucd_none (py ''a@ $b''))"
proof -
  let ?s = "py ''a@ $b''"
  have fi: "finditer (MASTER ucd_none) 0 ?s =
     [(py ''ID'', py ''a'', 0), (py ''UNKNOWN'', py ''@'', 1), (py ''SKIP'', py '' '', 2),
      (py ''UNKNOWN'', py ''$'', 3), (py ''ID'', py ''b'', 4)]"
    by code_simp
  have h1: "\<not> rule_char ucd_none (?s ! 3)" by code_simp
  have h2: "\<not> skip_class (?s ! 4)" by code_simp
  have h3: "named_alt (butlast (TOKEN_SPEC ucd_none)) (drop 1 ?s) = None" by code_simp
  have h4: "3 < length ?s" "4 < length ?s" by code_simp+
  have m: "(py ''UNKNOWN'', py ''@'', 1) \<in> set (finditer (MASTER ucd_none) 0 ?s)"
    unfolding fi by simp
  note t = tokenize_error_tolerant [of ?s ucd_none]
  from t have a: "\<forall>i<length ?s. \<not> skip_class (?s ! i) \<longrightarrow>
       (\<exists>(k, v, p)\<in>set (tokenize ucd_none ?s). p \<le> i \<and> i < p + length v)"
    by (rule conjunct1)
  from t have b: "\<forall>(g, v, p)\<in>set (finditer (MASTER ucd_none) 0 ?s).
         named_alt (butlast (TOKEN_SPEC ucd_none)) (drop p ?s) = None \<longrightarrow>
           g = py ''UNKNOWN'' \<and> v = [?s ! p]
           \<and> (py ''ERROR'', [?s ! p], p) \<in> set (tokenize ucd_none ?s)"
    by (rule conjunct1 [OF conjunct2])
  from t have d: "\<forall>i<length ?s. \<not> rule_char ucd_none (?s ! i) \<longrightarrow>
         (py ''ERROR'', [?s ! i], i) \<in> set (tokenize ucd_none ?s)"
    by (rule conjunct1 [OF conjunct2 [OF conjunct2 [OF conjunct2]]])
  from a h4(2) h2
  have 1: "\<exists>(k, v, p)\<in>set (tokenize ucd_none ?s). p \<le> 4 \<and> 4 < p + length v"
    by blast
  from bspec [OF b m] h3
  have 2: "(py ''ERROR'', [?s ! 1], 1) \<in> set (tokenize ucd_none ?s)"
    by simp
  from d h4(1) h1
  have 3: "(py ''ERROR'', [?s ! 3], 3) \<in> set (tokenize ucd_none ?s)"
    by blast
  from h2 1 m h3 2 h1 3 show ?thesis by blast
qed

section \<open>Properties of the automaton for identifiers\<close>

lemma afd_loop_all: "afd_loop U r = list_all (\<lambda>ch. isalnum U ch \<or> ch = 95) r"
  by (induction r) auto

lemma id_start_alpha: "id_start c \<Longrightarrow> isalpha U c \<or> c = 95"
  by (auto simp: id_start_def isalpha_def)

lemma id_part_alnum: "id_part c \<Longrightarrow> isalnum U c \<or> c = 95"
  by (auto simp: id_part_def isalnum_def isalpha_def isdecimal_def)

lemma afd_accepts_identifier:
  assumes "s \<noteq> []" and "id_start (hd s)" and "list_all id_part (tl s)"
  shows "afd_identificador U s"
proof -
  from assms(1) obtain c r where s: "s = c # r" by (cases s) auto
  from assms(3) s have "list_all (\<lambda>ch. isalnum U ch \<or> ch = 95) r"
    by (auto simp: list_all_iff dest: id_part_alnum [of _ U])
  with s id_start_alpha [OF assms(2), of U] show ?thesis
    by (simp add: afd_identificador_def afd_loop_all)
qed

text \<open>
  C1. \<open>afd_identificador(s)\<close> is true for every string \<open>s\<close> that
  \<open>[A-Za-z_][A-Za-z0-9_]*\<close> matches: a first character of \<open>[A-Za-z_]\<close> and then
  characters of \<open>[A-Za-z0-9_]\<close> only. It is false for the empty string and for every
  string whose first character is a decimal digit: one of 0-9 or, above U+00FF, a
  character that the table lists as a decimal digit and, as in the Unicode database,
  not as a letter too.
\<close>

theorem afd_identificador_regex:
  "(s \<noteq> [] \<and> id_start (hd s) \<and> list_all id_part (tl s) \<longrightarrow> afd_identificador U s)
   \<and> \<not> afd_identificador U []
   \<and> (s \<noteq> [] \<and> isdecimal U (hd s) \<and> (256 \<le> hd s \<longrightarrow> \<not> ucd_alpha U (hd s))
        \<longrightarrow> \<not> afd_identificador U s)"
proof (intro conjI impI)
  assume "s \<noteq> [] \<and> id_start (hd s) \<and> list_all id_part (tl s)"
  then show "afd_identificador U s" by (simp add: afd_accepts_identifier)
next
  show "\<not> afd_identificador U []" by (simp add: afd_identificador_def)
next
  assume a: "s \<noteq> [] \<and> isdecimal U (hd s) \<and> (256 \<le> hd s \<longrightarrow> \<not> ucd_alpha U (hd s))"
  then obtain c r where s: "s = c # r" by (cases s) auto
  from a s have "\<not> isalpha U c" "c \<noteq> 95"
    by (auto simp: isdecimal_def isalpha_def split: if_splits)
  with s show "\<not> afd_identificador U s" by (simp add: afd_identificador_def)
qed

theorem afd_identificador_regex_witness:
  "afd_identificador ucd_none (py ''_x1'') \<and> \<not> afd_identificador ucd_none (py ''1x'')"
proof -
  have a: "py ''_x1'' \<noteq> [] \<and> id_start (hd (py ''_x1'')) \<and> list_all id_part (tl (py ''_x1''))"
    by code_simp
  have b: "py ''1x'' \<noteq> [] \<and> isdecimal ucd_none (hd (py ''1x''))
           \<and> (256 \<le> hd (py ''1x'') \<longrightarrow> \<not> ucd_alpha ucd_none (hd (py ''1x'')))"
    by code_simp
  from afd_identificador_regex [of "py ''_x1''" ucd_none] a
  have 1: "afd_identificador ucd_none (py ''_x1'')" by blast
  from afd_identificador_regex [of "py ''1x''" ucd_none] b
  have 2: "\<not> afd_identificador ucd_none (py ''1x'')" by blast
  from 1 2 show ?thesis by blast
qed

lemma re_id_full:
  assumes "re_id s = Some (length s)"
  shows "s \<noteq> [] \<and> id_start (hd s) \<and> list_all id_part (tl s)"
proof -
  from assms obtain c r where s: "s = c # r" by (cases s) (auto simp: re_id_def)
  from assms s have c: "id_start c" and r: "run id_part r = length r"
    by (auto simp: re_id_def split: if_splits)
  from r have "takeWhile id_part r = r"
    unfolding run_def by (metis takeWhile_eq_take take_all order_refl)
  then have "list_all id_part r"
    by (metis list_all_iff set_takeWhileD)
  with s c show ?thesis by simp
qed

text \<open>
  C10. The alphabet of \<open>afd_identificador\<close> is strictly larger than that of the rule
  \<open>ID\<close> of the tokenizer: it accepts every string that \<open>[A-Za-z_][A-Za-z0-9_]*\<close>
  matches as a whole, and it accepts the one-character string U+00E9 (e with acute
  accent), which the rule \<open>ID\<close> does not match and for which \<open>tokenize\<close> gives one
  \<open>ERROR\<close> token with that character.
\<close>

theorem afd_alphabet_larger:
  "(\<forall>s. re_id s = Some (length s) \<longrightarrow> afd_identificador U s)
   \<and> afd_identificador U [233] \<and> re_id [233] = None
   \<and> tokenize U [233] = [(py ''ERROR'', [233], 0)]
   \<and> (\<exists>s. length s = 1 \<and> afd_identificador U s
            \<and> tokenize U s = [(py ''ERROR'', s, 0)])"
proof -
  have 1: "\<forall>s. re_id s = Some (length s) \<longrightarrow> afd_identificador U s"
    using re_id_full afd_accepts_identifier by blast
  have 2: "afd_identificador U [233]" "re_id [233] = None"
    "tokenize U [233] = [(py ''ERROR'', [233], 0)]"
    by code_simp+
  from 2 have "\<exists>s. length s = 1 \<and> afd_identificador U s
            \<and> tokenize U s = [(py ''ERROR'', s, 0)]"
    by (intro exI [of _ "[233]"]) simp
  with 1 2 show ?thesis by blast
qed

theorem afd_alphabet_larger_witness:
  "re_id (py ''x1'') = Some (length (py ''x1'')) \<and> afd_identificador ucd_none (py ''x1'')"
proof -
  have a: "re_id (py ''x1'') = Some (length (py ''x1''))" by code_simp
  from afd_alphabet_larger [of ucd_none] a show ?thesis by blast
qed

section \<open>Properties of the lexer of the parser\<close>

lemma next_calls_at_end:
  "length (tokens lx) \<le> pos lx \<Longrightarrow>
     next_calls n lx = (replicate n (py ''EOF'', []), lx\<lparr>pos := pos lx + n\<rparr>)"
proof (induction n arbitrary: lx)
  case 0
  show ?case by simp
next
  case (Suc n)
  from Suc.prems have p: "peek lx = (py ''EOF'', [])" by (simp add: peek_def)
  from Suc.prems have "length (tokens (lx\<lparr>pos := pos lx + 1\<rparr>)) \<le> pos (lx\<lparr>pos := pos lx + 1\<rparr>)"
    by simp
  from Suc.IH [OF this] p show ?case
    by (simp add: next_tok_def Let_def)
qed

text \<open>
  C9. On a lexer whose cursor is at or past the end of its tokens, \<open>peek()\<close> returns
  \<open>("EOF", "")\<close>; \<open>peek\<close> is a function of the lexer and returns no lexer, so it leaves
  the cursor where it is. Every call of \<open>next()\<close> from there on also returns
  \<open>("EOF", "")\<close>, however many there are; each moves the cursor one further and none
  raises, and \<open>peek()\<close> after them still returns \<open>("EOF", "")\<close>.
\<close>

theorem peek_next_at_end:
  "length (tokens lx) \<le> pos lx \<longrightarrow>
     peek lx = (py ''EOF'', [])
     \<and> fst (next_calls n lx) = replicate n (py ''EOF'', [])
     \<and> tokens (snd (next_calls n lx)) = tokens lx
     \<and> pos (snd (next_calls n lx)) = pos lx + n
     \<and> peek (snd (next_calls n lx)) = (py ''EOF'', [])"
  by (simp add: next_calls_at_end peek_def)

theorem peek_next_at_end_witness:
  "length (tokens \<lparr>tokens = [(py ''NUMBER'', py ''1'')], pos = 1\<rparr>)
     \<le> pos \<lparr>tokens = [(py ''NUMBER'', py ''1'')], pos = 1\<rparr>
   \<and> peek \<lparr>tokens = [(py ''NUMBER'', py ''1'')], pos = 1\<rparr> = (py ''EOF'', [])
   \<and> fst (next_calls 3 \<lparr>tokens = [(py ''NUMBER'', py ''1'')], pos = 1\<rparr>)
       = [(py ''EOF'', []), (py ''EOF'', []), (py ''EOF'', [])]
   \<and> pos (snd (next_calls 3 \<lparr>tokens = [(py ''NUMBER'', py ''1'')], pos = 1\<rparr>)) = 4"
  using peek_next_at_end [of "\<lparr>tokens = [(py ''NUMBER'', py ''1'')], pos = 1\<rparr>" 3]
  by (simp add: numeral_3_eq_3)

section \<open>Properties of the parser\<close>

declare F.simps [simp del] T.simps [simp del] T_loop.simps [simp del]
  E.simps [simp del] E_loop.simps [simp del]

lemma token_alt_Some:
  assumes "token_alt U s = Some (g, n)"
  shows "1 \<le> n \<and> n \<le> length s
         \<and> (g = (Some (take n s), None, None) \<or> g = (None, Some (take n s), None)
              \<or> g = (None, None, Some (take n s)))"
proof (cases "alt [re_float U, re_int U] s")
  case (Some k)
  with assms have g: "g = (Some (take n s), None, None)" and n: "n = k"
    by (auto simp: token_alt_def)
  from Some have "re_float U s = Some k \<or> re_int U s = Some k"
    by (auto split: option.splits)
  with re_float_Some [of U s k] re_int_Some [of U s k] have "1 \<le> k \<and> k \<le> length s"
    by blast
  with g n show ?thesis by simp
next
  case None
  note nn = this
  show ?thesis
  proof (cases "re_id s")
    case (Some k)
    with nn assms have g: "g = (None, Some (take n s), None)" and n: "n = k"
      by (auto simp: token_alt_def)
    with re_id_Some [OF Some] show ?thesis by simp
  next
    case None
    with nn assms
    have "(case re_dot s of Some n \<Rightarrow> Some ((None, None, Some (take n s)), n) | None \<Rightarrow> None)
            = Some (g, n)"
      by (simp add: token_alt_def)
    then obtain k where d: "re_dot s = Some k"
      and gk: "((None, None, Some (take k s)), k) = (g, n)"
      by (cases "re_dot s") simp_all
    from gk have n: "n = k" by simp
    from gk n have g: "g = (None, None, Some (take n s))" by simp
    from re_dot_Some [OF d] n have "n = 1" and "s \<noteq> []" by simp_all
    then have "1 \<le> n \<and> n \<le> length s" by (cases s) simp_all
    with g show ?thesis by blast
  qed
qed

lemma TOKEN_RE_Some:
  assumes "TOKEN_RE U s = Some (g, n)"
  shows "1 \<le> n \<and> n \<le> length s
         \<and> (\<exists>v. v \<noteq> [] \<and> (g = (Some v, None, None) \<or> g = (None, Some v, None)
                              \<or> g = (None, None, Some v)))"
proof -
  from backtrack_Some [OF assms [unfolded TOKEN_RE_def]]
  obtain k where k: "k \<le> run (isspace U) s"
    and c: "(case token_alt U (drop k s) of Some (g, n) \<Rightarrow> Some (g, k + n) | None \<Rightarrow> None)
              = Some (g, n)"
    by blast
  from c obtain n' where t: "token_alt U (drop k s) = Some (g, n')" and n: "n = k + n'"
    by (auto split: option.splits)
  from token_alt_Some [OF t] have b: "1 \<le> n'" "n' \<le> length s - k"
    and g: "g = (Some (take n' (drop k s)), None, None)
            \<or> g = (None, Some (take n' (drop k s)), None)
            \<or> g = (None, None, Some (take n' (drop k s)))"
    by simp_all
  from b have "take n' (drop k s) \<noteq> []" by auto
  with g have "\<exists>v. v \<noteq> [] \<and> (g = (Some v, None, None) \<or> g = (None, Some v, None)
                              \<or> g = (None, None, Some v))"
    by blast
  with b n show ?thesis by auto
qed

lemma TOKEN_RE_proper: "proper (TOKEN_RE U)"
  unfolding proper_def using TOKEN_RE_Some by blast

lemma not_EOF_in_ops: "str_in ot (py ''+-*/()'') \<Longrightarrow> ot \<noteq> py ''EOF''"
proof
  assume "str_in ot (py ''+-*/()'')" and "ot = py ''EOF''"
  then have "str_in (py ''EOF'') (py ''+-*/()'')" by simp
  moreover have "\<not> str_in (py ''EOF'') (py ''+-*/()'')" by code_simp
  ultimately show False by simp
qed

lemma add_token_ok:
  assumes "v \<noteq> []"
    and "g = (Some v, None, None) \<or> g = (None, Some v, None) \<or> g = (None, None, Some v)"
    and "\<forall>t\<in>set toks. fst t \<noteq> py ''EOF''"
  shows "\<exists>toks'. add_token g toks = Inr toks' \<and> (\<forall>t\<in>set toks'. fst t \<noteq> py ''EOF'')"
proof -
  have n: "py ''NUMBER'' \<noteq> py ''EOF''" "py ''ID'' \<noteq> py ''EOF''" "py ''ERROR'' \<noteq> py ''EOF''"
    by (simp_all add: py_def)
  from assms(2) show ?thesis
  proof (elim disjE)
    assume "g = (Some v, None, None)"
    with assms(1,3) n show ?thesis by (simp add: truthy_def)
  next
    assume "g = (None, Some v, None)"
    with assms(1,3) n show ?thesis by (simp add: truthy_def)
  next
    assume "g = (None, None, Some v)"
    with assms(1,3) n not_EOF_in_ops [of v] show ?thesis by (auto simp: truthy_def)
  qed
qed

lemma lexer_loop_ok:
  assumes "\<forall>x\<in>set ms. \<exists>v. v \<noteq> [] \<and> (fst x = (Some v, None, None) \<or> fst x = (None, Some v, None)
                              \<or> fst x = (None, None, Some v))"
    and "\<forall>t\<in>set toks. fst t \<noteq> py ''EOF''"
  shows "\<exists>toks'. lexer_loop ms toks = Inr toks' \<and> (\<forall>t\<in>set toks'. fst t \<noteq> py ''EOF'')"
  using assms
proof (induction ms toks rule: lexer_loop.induct)
  case (1 toks)
  then show ?case by simp
next
  case (2 g val start ms toks)
  from "2.prems"(1) obtain v where v: "v \<noteq> []"
    "g = (Some v, None, None) \<or> g = (None, Some v, None) \<or> g = (None, None, Some v)"
    by auto
  from add_token_ok [OF v "2.prems"(2)] obtain toks'
    where a: "add_token g toks = Inr toks'" and k: "\<forall>t\<in>set toks'. fst t \<noteq> py ''EOF''"
    by blast
  from "2.prems"(1) have r: "\<forall>x\<in>set ms. \<exists>v. v \<noteq> [] \<and> (fst x = (Some v, None, None)
      \<or> fst x = (None, Some v, None) \<or> fst x = (None, None, Some v))"
    by simp
  from "2.IH" [OF a r k] a show ?case by simp
qed

lemma ExprLexer_init_total:
  "\<exists>lx. ExprLexer_init U text = Inr lx \<and> pos lx = 0 \<and> (\<forall>t\<in>set (tokens lx). fst t \<noteq> py ''EOF'')"
proof -
  have "\<forall>x\<in>set (finditer (TOKEN_RE U) 0 text). \<exists>v. v \<noteq> [] \<and> (fst x = (Some v, None, None)
      \<or> fst x = (None, Some v, None) \<or> fst x = (None, None, Some v))"
  proof
    fix x assume x: "x \<in> set (finditer (TOKEN_RE U) 0 text)"
    obtain g v p where xx: "x = (g, v, p)" by (cases x)
    from finditer_match [OF TOKEN_RE_proper x [unfolded xx]]
    have "TOKEN_RE U (drop p text) = Some (g, length v)" by simp
    from TOKEN_RE_Some [OF this] xx
    show "\<exists>v. v \<noteq> [] \<and> (fst x = (Some v, None, None)
      \<or> fst x = (None, Some v, None) \<or> fst x = (None, None, Some v))"
      by simp
  qed
  from lexer_loop_ok [OF this, of "[]"] obtain toks
    where "lexer_loop (finditer (TOKEN_RE U) 0 text) [] = Inr toks"
      and "\<forall>t\<in>set toks. fst t \<noteq> py ''EOF''"
    by auto
  then show ?thesis by (simp add: ExprLexer_init_def)
qed

lemma parser_result:
  "F l1 = Inr (n1, r1) \<Longrightarrow>
     tokens r1 = tokens l1 \<and> pos l1 \<le> pos r1
     \<and> (pos l1 \<le> length (tokens l1) \<longrightarrow> pos r1 \<le> length (tokens l1))"
  "T l2 = Inr (n2, r2) \<Longrightarrow>
     tokens r2 = tokens l2 \<and> pos l2 \<le> pos r2
     \<and> (pos l2 \<le> length (tokens l2) \<longrightarrow> pos r2 \<le> length (tokens l2))"
  "T_loop a3 l3 = Inr (n3, r3) \<Longrightarrow>
     tokens r3 = tokens l3 \<and> pos l3 \<le> pos r3
     \<and> (pos l3 \<le> length (tokens l3) \<longrightarrow> pos r3 \<le> length (tokens l3))"
  "E l4 = Inr (n4, r4) \<Longrightarrow>
     tokens r4 = tokens l4 \<and> pos l4 \<le> pos r4
     \<and> (pos l4 \<le> length (tokens l4) \<longrightarrow> pos r4 \<le> length (tokens l4))"
  "E_loop a5 l5 = Inr (n5, r5) \<Longrightarrow>
     tokens r5 = tokens l5 \<and> pos l5 \<le> pos r5
     \<and> (pos l5 \<le> length (tokens l5) \<longrightarrow> pos r5 \<le> length (tokens l5))"
proof (induct l1 and l2 and a3 l3 and l4 and a5 l5
    arbitrary: n1 r1 and n2 r2 and n3 r3 and n4 r4 and n5 r5
    rule: F_T_T_loop_E_E_loop.induct)
  case (1 lx)
  note res = "1.prems" [unfolded F.simps [of lx] Let_def]
  show ?case
  proof (cases "fst (peek lx) = py ''NUMBER'' \<or> fst (peek lx) = py ''ID''")
    case True
    with res have r: "r1 = snd (next_tok lx)"
      by (auto split: if_splits)
    from True have "fst (peek lx) \<noteq> py ''EOF''" by (auto simp: py_def)
    from peek_not_EOF [OF this] r show ?thesis by simp
  next
    case False
    with res have paren: "fst (peek lx) = py ''(''"
      by (auto split: if_splits)
    with False res obtain lx1 where e: "E (snd (next_tok lx)) = Inr (n1, lx1)"
      and c: "fst (peek lx1) = py '')''" and r: "r1 = snd (next_tok lx1)"
      by (auto split: sum.splits if_splits)
    from "1.hyps" [OF refl _ _ paren e] False
    have ih: "tokens lx1 = tokens (snd (next_tok lx)) \<and> pos (snd (next_tok lx)) \<le> pos lx1"
      by simp
    from c have "fst (peek lx1) \<noteq> py ''EOF''" by (simp add: py_def)
    from peek_not_EOF [OF this] ih r show ?thesis by simp
  qed
next
  case (2 lx)
  note res = "2.prems" [unfolded T.simps [of lx]]
  from res obtain node lx1 where f: "F lx = Inr (node, lx1)"
    and t: "T_loop node lx1 = Inr (n2, r2)"
    by (auto split: sum.splits)
  from "2.hyps"(1) [OF f] "2.hyps"(2) [OF f refl t] show ?case by simp
next
  case (3 node lx)
  note res = "3.prems" [unfolded T_loop.simps [of node lx]]
  show ?case
  proof (cases "fst (peek lx) \<in> set [py ''*'', py ''/'']")
    case True
    with res obtain right lx2 where f: "F (snd (next_tok lx)) = Inr (right, lx2)"
      and t: "T_loop (BinOp (fst (fst (next_tok lx))) node right) lx2 = Inr (n3, r3)"
      by (auto split: sum.splits)
    from True have "fst (peek lx) \<noteq> py ''EOF''" by (auto simp: py_def)
    from peek_not_EOF [OF this] "3.hyps"(1) [OF True f] "3.hyps"(2) [OF True f refl t]
    show ?thesis by simp
  next
    case False
    with res show ?thesis by simp
  qed
next
  case (4 lx)
  note res = "4.prems" [unfolded E.simps [of lx]]
  from res obtain node lx1 where f: "T lx = Inr (node, lx1)"
    and t: "E_loop node lx1 = Inr (n4, r4)"
    by (auto split: sum.splits)
  from "4.hyps"(1) [OF f] "4.hyps"(2) [OF f refl t] show ?case by simp
next
  case (5 node lx)
  note res = "5.prems" [unfolded E_loop.simps [of node lx]]
  show ?case
  proof (cases "fst (peek lx) \<in> set [py ''+'', py ''-'']")
    case True
    with res obtain right lx2 where f: "T (snd (next_tok lx)) = Inr (right, lx2)"
      and t: "E_loop (BinOp (fst (fst (next_tok lx))) node right) lx2 = Inr (n5, r5)"
      by (auto split: sum.splits)
    from True have "fst (peek lx) \<noteq> py ''EOF''" by (auto simp: py_def)
    from peek_not_EOF [OF this] "5.hyps"(1) [OF True f] "5.hyps"(2) [OF True f refl t]
    show ?thesis by simp
  next
    case False
    with res show ?thesis by simp
  qed
qed


text \<open>
  C4. For every text: when \<open>E\<close> has read a whole expression and the next token is
  not the \<open>EOF\<close> sentinel, \<open>parse_expression\<close> raises the SyntaxError "extra input
  after the expression"; so when it returns an AST, \<open>E\<close> has consumed every token of
  the lexer. The lexer itself is built for every text (its \<open>TypeError\<close> branch is
  never taken). \<open>parse_expression("1 2")\<close> fails with that SyntaxError.
\<close>

theorem parse_rejects_trailing_input:
  "(ExprLexer_init U text = Inr lx \<and> E lx = Inr (ast, lx1) \<and> fst (peek lx1) \<noteq> py ''EOF''
      \<longrightarrow> parse_expression U text = Inl (SyntaxError ExtraInputAfterExpression))
   \<and> (parse_expression U text = Inr ast \<longrightarrow>
        (\<exists>lx lx1. ExprLexer_init U text = Inr lx \<and> E lx = Inr (ast, lx1)
            \<and> tokens lx1 = tokens lx \<and> pos lx1 = length (tokens lx)))
   \<and> (\<exists>lx. ExprLexer_init U text = Inr lx)
   \<and> parse_expression U (py ''1 2'') = Inl (SyntaxError ExtraInputAfterExpression)"
proof (intro conjI impI)
  assume "ExprLexer_init U text = Inr lx \<and> E lx = Inr (ast, lx1) \<and> fst (peek lx1) \<noteq> py ''EOF''"
  then show "parse_expression U text = Inl (SyntaxError ExtraInputAfterExpression)"
    by (simp add: parse_expression_def)
next
  assume ok: "parse_expression U text = Inr ast"
  from ExprLexer_init_total [of U "text"] obtain lx0
    where i: "ExprLexer_init U text = Inr lx0" and p: "pos lx0 = 0"
      and k: "\<forall>t\<in>set (tokens lx0). fst t \<noteq> py ''EOF''"
    by blast
  from ok i obtain lx2 where e: "E lx0 = Inr (ast, lx2)" and f: "fst (peek lx2) = py ''EOF''"
    by (auto simp: parse_expression_def split: sum.splits if_splits)
  from parser_result(4) [OF e] p
  have t: "tokens lx2 = tokens lx0" and le: "pos lx2 \<le> length (tokens lx0)" by simp_all
  have "\<not> pos lx2 < length (tokens lx2)"
  proof
    assume a: "pos lx2 < length (tokens lx2)"
    then have "peek lx2 \<in> set (tokens lx2)" by (simp add: peek_def)
    with k t f show False by auto
  qed
  with t le have "pos lx2 = length (tokens lx0)" by simp
  with i e t
  show "\<exists>lx lx1. ExprLexer_init U text = Inr lx \<and> E lx = Inr (ast, lx1)
            \<and> tokens lx1 = tokens lx \<and> pos lx1 = length (tokens lx)"
    by blast
next
  from ExprLexer_init_total [of U "text"] show "\<exists>lx. ExprLexer_init U text = Inr lx" by blast
next
  show "parse_expression U (py ''1 2'') = Inl (SyntaxError ExtraInputAfterExpression)"
    by code_simp
qed

theorem parse_rejects_trailing_input_witness:
  "E \<lparr>tokens = [(py ''NUMBER'', py ''1''), (py ''NUMBER'', py ''2'')], pos = 0\<rparr>
     = Inr (Number (py ''1''),
            \<lparr>tokens = [(py ''NUMBER'', py ''1''), (py ''NUMBER'', py ''2'')], pos = 1\<rparr>)
   \<and> parse_expression ucd_none (py ''1 2'') = Inl (SyntaxError ExtraInputAfterExpression)
   \<and> parse_expression ucd_none (py ''1+2'') =
       Inr (BinOp (py ''+'') (Number (py ''1'')) (Number (py ''2'')))
   \<and> (\<exists>lx lx1. ExprLexer_init ucd_none (py ''1+2'') = Inr lx
          \<and> E lx = Inr (BinOp (py ''+'') (Number (py ''1'')) (Number (py ''2'')), lx1)
          \<and> pos lx1 = length (tokens lx))"
proof -
  let ?l = "\<lparr>tokens = [(py ''NUMBER'', py ''1''), (py ''NUMBER'', py ''2'')], pos = 0\<rparr>"
  let ?l1 = "\<lparr>tokens = [(py ''NUMBER'', py ''1''), (py ''NUMBER'', py ''2'')], pos = 1\<rparr>"
  let ?ast = "BinOp (py ''+'') (Number (py ''1'')) (Number (py ''2''))"
  have i: "ExprLexer_init ucd_none (py ''1 2'') = Inr ?l" by code_simp
  have e: "E ?l = Inr (Number (py ''1''), ?l1)" by code_simp
  have p: "fst (peek ?l1) \<noteq> py ''EOF''" by code_simp
  have s: "parse_expression ucd_none (py ''1+2'') = Inr ?ast" by code_simp
  note a = parse_rejects_trailing_input [of ucd_none "py ''1 2''" ?l "Number (py ''1'')" ?l1]
  note b = parse_rejects_trailing_input [of ucd_none "py ''1+2''" _ ?ast]
  from a i e p
  have 1: "parse_expression ucd_none (py ''1 2'') = Inl (SyntaxError ExtraInputAfterExpression)"
    by blast
  from b s
  have 2: "\<exists>lx lx1. ExprLexer_init ucd_none (py ''1+2'') = Inr lx \<and> E lx = Inr (?ast, lx1)
            \<and> tokens lx1 = tokens lx \<and> pos lx1 = length (tokens lx)"
    by blast
  from e 1 s 2 show ?thesis by blast
qed




section \<open>Properties of the parser on the examples of the specification\<close>



end
